theory Spec2Isabelle
  imports Complex_Main "HOL-Library.Multiset"
begin

section \<open>Schedule blocks and the object store\<close>

text \<open>
  The layout engine of \<^verbatim>\<open>src/algorithm/Graph.ts\<close> works on \<^verbatim>\<open>ScheduleBlock\<close> objects that
  are shared by reference: the \<^verbatim>\<open>blocks\<close> array of a weekday and the \<^verbatim>\<open>neighbors\<close> arrays of
  the blocks all point to the same objects, and the algorithms mutate the objects in place and
  reorder the array in place.  The embedding keeps this aliasing explicit: an object is named by
  an address (a natural number), the store maps addresses to the current field values, and every
  array is a list of addresses.

  JavaScript numbers that hold minutes, depths and counters are modelled as unbounded integers.
  \<^verbatim>\<open>left\<close> and \<open>width\<close> are fractions of the full width.  The code holds them as IEEE doubles;
  the model holds the exact rational that the double approximates, with one extra value for
  the results that are not finite numbers (a division by zero gives \<^verbatim>\<open>Infinity\<close> or \<^verbatim>\<open>NaN\<close> in
  JavaScript).  The rounding of doubles is not modelled: where a statement below adds or
  compares such fractions it does so in exact arithmetic and is not a statement about the
  result of the same operation on doubles (in doubles \<open>2 / 5 + 1 / 5\<close> is not \<open>3 / 5\<close>).
\<close>

datatype number = Fin rat | NotFinite

text \<open>
  JavaScript's \<^verbatim>\<open>a / b\<close> on two integers.  The code gets the exact quotient rounded to the
  nearest double; \<open>js_div\<close> gives the exact quotient, so that \<open>Fin q\<close> stands for the double
  nearest to \<open>q\<close>.
\<close>

definition js_div :: "int \<Rightarrow> int \<Rightarrow> number" where
  "js_div a b = (if b = 0 then NotFinite else Fin (of_int a / of_int b))"

text \<open>
  Modelled from the spec: the class \<^verbatim>\<open>ScheduleBlock\<close> (\<^verbatim>\<open>models/ScheduleBlock\<close>) is not among
  the sources; its fields are the ones \<^verbatim>\<open>Graph.ts\<close> reads and writes, with the defaults of the
  data model (\<open>depth = 0\<close>, \<open>left = -1\<close>, \<open>isFixed = false\<close>, \<open>visited = false\<close>, no neighbors).
\<close>

record block =
  startMin :: int
  endMin :: int
  depth :: int
  pathDepth :: int
  left :: number
  width :: number
  isFixed :: bool
  visited :: bool
  neighbors :: "nat list"
  idx :: nat

type_synonym heap = "nat \<Rightarrow> block"

text \<open>
  Modelled from the spec: \<^verbatim>\<open>ScheduleBlock.duration\<close> is the length of the interval in minutes.
\<close>

definition duration :: "block \<Rightarrow> int" where
  "duration b = endMin b - startMin b"

text \<open>
  Modelled from the spec: \<^verbatim>\<open>ScheduleBlock.conflict\<close> tests the overlap of the half-open
  intervals, \<^verbatim>\<open>a.start < b.end && b.start < a.end\<close>.
\<close>

definition conflict :: "block \<Rightarrow> block \<Rightarrow> bool" where
  "conflict a b \<longleftrightarrow> startMin a < endMin b \<and> startMin b < endMin a"

text \<open>A freshly created block: the interval is set, every layout field has its default.\<close>

definition mkBlock :: "int \<Rightarrow> int \<Rightarrow> block" where
  "mkBlock s e = \<lparr> startMin = s, endMin = e, depth = 0, pathDepth = 0, left = Fin (- 1),
     width = Fin (- 1), isFixed = False, visited = False, neighbors = [], idx = 0 \<rparr>"

definition fresh :: "block \<Rightarrow> bool" where
  "fresh b \<longleftrightarrow> depth b = 0 \<and> \<not> isFixed b \<and> \<not> visited b \<and> neighbors b = []"

section \<open>Library operations used by the source\<close>

text \<open>
  \<^verbatim>\<open>Array.prototype.sort\<close> with a comparator: \<open>a\<close> is placed before \<open>b\<close> when the comparator is
  negative, and the sort is stable (ECMAScript 2019), which the insertion sort below is.
\<close>

fun insort_cmp :: "('a \<Rightarrow> 'a \<Rightarrow> int) \<Rightarrow> 'a \<Rightarrow> 'a list \<Rightarrow> 'a list" where
  "insort_cmp cmp x [] = [x]"
| "insort_cmp cmp x (y # ys) = (if cmp x y \<le> 0 then x # y # ys else y # insort_cmp cmp x ys)"

definition sort_cmp :: "('a \<Rightarrow> 'a \<Rightarrow> int) \<Rightarrow> 'a list \<Rightarrow> 'a list" where
  "sort_cmp cmp xs = foldr (insort_cmp cmp) xs []"

text \<open>
  The priority queue of the \<^verbatim>\<open>tinyqueue\<close> package (a binary min-heap under a comparator) is an
  external library.  It is modelled by a list kept in comparator order: \<open>peek\<close> is the head,
  \<open>pop\<close> drops it and \<open>push\<close> inserts in order.  Elements that the comparator cannot tell apart
  agree on every field the schedulers read from the top of the queue.
\<close>

fun pq_push :: "('a \<Rightarrow> 'a \<Rightarrow> int) \<Rightarrow> 'a \<Rightarrow> 'a list \<Rightarrow> 'a list" where
  "pq_push cmp x [] = [x]"
| "pq_push cmp x (y # ys) = (if cmp x y < 0 then x # y # ys else y # pq_push cmp x ys)"

text \<open>A loop whose body may fail: the first failure ends the loop.\<close>

fun foldo :: "('a \<Rightarrow> 's \<Rightarrow> 's option) \<Rightarrow> 'a list \<Rightarrow> 's \<Rightarrow> 's option" where
  "foldo f [] s = Some s"
| "foldo f (x # xs) s = (case f x s of None \<Rightarrow> None | Some s' \<Rightarrow> foldo f xs s')"

section \<open>The conflict graph\<close>

text \<open>The inner loop of \<^verbatim>\<open>constructAdjList\<close>: block \<open>bi\<close> against every later block \<open>bj\<close>.\<close>

definition addEdge :: "nat \<Rightarrow> nat \<Rightarrow> heap \<Rightarrow> heap" where
  "addEdge bi bj h =
     (if conflict (h bi) (h bj) then
        (let h1 = h(bj := (h bj)\<lparr>neighbors := neighbors (h bj) @ [bi]\<rparr>)
         in h1(bi := (h1 bi)\<lparr>neighbors := neighbors (h1 bi) @ [bj]\<rparr>))
      else h)"

fun constructAdjList :: "nat list \<Rightarrow> heap \<Rightarrow> heap" where
  "constructAdjList [] h = h"
| "constructAdjList (bi # bs) h = constructAdjList bs (fold (addEdge bi) bs h)"

section \<open>Interval scheduling\<close>

text \<open>The comparator both schedulers sort with: start time, then duration.\<close>

definition cmpStart :: "heap \<Rightarrow> nat \<Rightarrow> nat \<Rightarrow> int" where
  "cmpStart h b1 b2 =
     (let diff = startMin (h b1) - startMin (h b2)
      in if diff = 0 then duration (h b1) - duration (h b2) else diff)"

subsection \<open>The quadratic scheduler\<close>

text \<open>
  The scan over \<^verbatim>\<open>occupied\<close>: \<open>k\<close> is the loop index, the accumulator holds \<^verbatim>\<open>minRoomIdx\<close>
  (\<open>None\<close> for \<^verbatim>\<open>Infinity\<close>) and the local \<^verbatim>\<open>idx\<close> (written \<open>ix\<close>; \<open>None\<close> for \<open>-1\<close>).
\<close>

fun findRoom :: "heap \<Rightarrow> nat \<Rightarrow> nat list \<Rightarrow> nat \<Rightarrow> int option \<times> nat option
    \<Rightarrow> int option \<times> nat option" where
  "findRoom h block [] k acc = acc"
| "findRoom h block (prevBlock # occ) k (minRoomIdx, ix) =
     findRoom h block occ (Suc k)
       (if endMin (h prevBlock) \<le> startMin (h block) \<and>
           (case minRoomIdx of None \<Rightarrow> True | Some m \<Rightarrow> depth (h prevBlock) < m)
        then (Some (depth (h prevBlock)), Some k)
        else (minRoomIdx, ix))"

text \<open>One iteration of the main loop; the state is the store, \<^verbatim>\<open>occupied\<close> and \<^verbatim>\<open>numRooms\<close>.\<close>

definition schedStep :: "nat \<Rightarrow> heap \<times> nat list \<times> int \<Rightarrow> heap \<times> nat list \<times> int" where
  "schedStep block st =
     (case st of (h, occupied, numRooms) \<Rightarrow>
        (case snd (findRoom h block occupied 0 (None, None)) of
           None \<Rightarrow>
             (h(block := (h block)\<lparr>depth := numRooms + 1\<rparr>), occupied @ [block], numRooms + 1)
         | Some i \<Rightarrow>
             (h(block := (h block)\<lparr>depth := depth (h (occupied ! i))\<rparr>),
              occupied[i := block], numRooms)))"

text \<open>
  \<^verbatim>\<open>intervalScheduling\<close> returns the number of rooms; the model also returns the array in its
  new order and the store.
\<close>

definition intervalScheduling :: "nat list \<Rightarrow> heap \<Rightarrow> int \<times> nat list \<times> heap" where
  "intervalScheduling blocks h =
     (case sort_cmp (cmpStart h) blocks of
        [] \<Rightarrow> (0, blocks, h)
      | b0 # rest \<Rightarrow>
          (case fold schedStep rest (h, [b0], 0) of
             (h', occupied, numRooms) \<Rightarrow> (numRooms + 1, b0 # rest, h')))"

subsection \<open>The scheduler with a priority queue\<close>

definition cmpEnd :: "heap \<Rightarrow> nat \<Rightarrow> nat \<Rightarrow> int" where
  "cmpEnd h r1 r2 =
     (let diff = endMin (h r1) - endMin (h r2)
      in if diff = 0 then depth (h r1) - depth (h r2) else diff)"

text \<open>
  One iteration; the state is the store, the queue and \<^verbatim>\<open>numRooms\<close>.  The queue is never empty
  here (it starts with one element and every iteration pushes one), so \<^verbatim>\<open>peek()!\<close> is defined;
  the model leaves the state unchanged on an empty queue.
\<close>

definition schedStep2 :: "nat \<Rightarrow> heap \<times> nat list \<times> int \<Rightarrow> heap \<times> nat list \<times> int" where
  "schedStep2 block st =
     (case st of (h, queue, numRooms) \<Rightarrow>
        (case queue of
           [] \<Rightarrow> (h, queue, numRooms)
         | prevBlock # popped \<Rightarrow>
             if endMin (h prevBlock) > startMin (h block) then
               (let h' = h(block := (h block)\<lparr>depth := numRooms + 1\<rparr>)
                in (h', pq_push (cmpEnd h') block queue, numRooms + 1))
             else
               (let h' = h(block := (h block)\<lparr>depth := depth (h prevBlock)\<rparr>)
                in (h', pq_push (cmpEnd h') block popped, numRooms))))"

definition intervalScheduling2 :: "nat list \<Rightarrow> heap \<Rightarrow> int \<times> nat list \<times> heap" where
  "intervalScheduling2 blocks h =
     (case sort_cmp (cmpStart h) blocks of
        [] \<Rightarrow> (0, blocks, h)
      | b0 # rest \<Rightarrow>
          (case fold schedStep2 rest (h, [b0], 0) of
             (h', queue, numRooms) \<Rightarrow> (numRooms + 1, b0 # rest, h')))"

section \<open>Path depth and fixed blocks\<close>

text \<open>
  The two depth-first searches are recursive through a loop over the neighbors.  The model
  bounds the nesting of the recursion by a fuel argument: a call that would nest deeper than
  the fuel allows yields \<open>None\<close>.  The theorems below show that fuel equal to the number of
  blocks of the weekday is always enough.
\<close>

fun depthFirstSearchRec :: "nat \<Rightarrow> nat \<Rightarrow> int \<Rightarrow> heap \<Rightarrow> heap option" where
  "depthFirstSearchRec 0 start maxDepth h = None"
| "depthFirstSearchRec (Suc fuel) start maxDepth h =
     (let h1 = h(start := (h start)\<lparr>visited := True, pathDepth := maxDepth\<rparr>);
          startDepth = depth (h1 start)
      in foldo (\<lambda>adj h'.
                 if \<not> visited (h' adj) \<and> depth (h' adj) < startDepth
                 then depthFirstSearchRec fuel adj maxDepth h'
                 else Some h')
           (neighbors (h1 start)) h1)"

text \<open>
  \<^verbatim>\<open>DFSFindFixed\<close> returns the flag it stores in \<^verbatim>\<open>start.isFixed\<close>.  In the loop the pair is the
  local \<^verbatim>\<open>flag\<close> and the store.  \<^verbatim>\<open>(samePath && DFSFindFixed(adj)) || flag\<close> calls the function
  only when \<^verbatim>\<open>samePath\<close> holds.
\<close>

fun DFSFindFixed :: "nat \<Rightarrow> nat \<Rightarrow> heap \<Rightarrow> (bool \<times> heap) option" where
  "DFSFindFixed 0 start h = None"
| "DFSFindFixed (Suc fuel) start h =
     (let h1 = h(start := (h start)\<lparr>visited := True\<rparr>);
          startDepth = depth (h1 start)
      in if startDepth = 0 then Some (True, h1(start := (h1 start)\<lparr>isFixed := True\<rparr>))
         else
           (let pDepth = pathDepth (h1 start)
            in case foldo (\<lambda>adj (flag, h').
                      (let samePath = (startDepth - depth (h' adj) = 1 \<and> pDepth = pathDepth (h' adj))
                       in if visited (h' adj) then Some ((isFixed (h' adj) \<and> samePath) \<or> flag, h')
                          else if samePath then
                            (case DFSFindFixed fuel adj h' of
                               None \<Rightarrow> None
                             | Some (r, h'') \<Rightarrow> Some (r \<or> flag, h''))
                          else Some (flag, h')))
                   (neighbors (h1 start)) (False, h1) of
                 None \<Rightarrow> None
               | Some (flag, h2) \<Rightarrow> Some (flag, h2(start := (h2 start)\<lparr>isFixed := flag\<rparr>))))"

definition clearVisited :: "nat list \<Rightarrow> heap \<Rightarrow> heap" where
  "clearVisited blocks h = fold (\<lambda>node h'. h'(node := (h' node)\<lparr>visited := False\<rparr>)) blocks h"

definition calculateMaxDepth :: "nat \<Rightarrow> nat list \<Rightarrow> heap \<Rightarrow> (nat list \<times> heap) option" where
  "calculateMaxDepth fuel blocks h =
     (let blocks' = sort_cmp (\<lambda>v1 v2. depth (h v2) - depth (h v1)) blocks
      in case foldo (\<lambda>node h'.
                if \<not> visited (h' node)
                then depthFirstSearchRec fuel node (depth (h' node) + 1) h'
                else Some h') blocks' h of
           None \<Rightarrow> None
         | Some h1 \<Rightarrow>
             (case foldo (\<lambda>node h'.
                      if \<not> visited (h' node) \<and>
                         list_all (\<lambda>v. depth (h' v) < depth (h' node)) (neighbors (h' node))
                      then map_option snd (DFSFindFixed fuel node h')
                      else Some h') blocks' (clearVisited blocks' h1) of
                None \<Rightarrow> None
              | Some h3 \<Rightarrow> Some (blocks', h3)))"

section \<open>Connected components of the blocks that are not fixed\<close>

text \<open>
  The \<^verbatim>\<open>while\<close> loop of \<^verbatim>\<open>BFS\<close>: \<^verbatim>\<open>componentNodes\<close> is both the queue and the result, \<open>qIdx\<close>
  the read position.  Each iteration uses one unit of fuel.
\<close>

definition bfsVisit :: "nat \<Rightarrow> nat list \<times> heap \<Rightarrow> nat list \<times> heap" where
  "bfsVisit node st =
     (case st of (componentNodes, h) \<Rightarrow>
        if \<not> visited (h node) \<and> \<not> isFixed (h node)
        then (componentNodes @ [node], h(node := (h node)\<lparr>visited := True\<rparr>))
        else (componentNodes, h))"

fun BFS_loop :: "nat \<Rightarrow> nat \<Rightarrow> nat list \<Rightarrow> heap \<Rightarrow> (nat list \<times> heap) option" where
  "BFS_loop 0 qIdx componentNodes h = None"
| "BFS_loop (Suc fuel) qIdx componentNodes h =
     (if qIdx < length componentNodes then
        (case fold bfsVisit (neighbors (h (componentNodes ! qIdx))) (componentNodes, h) of
           (componentNodes', h') \<Rightarrow> BFS_loop fuel (Suc qIdx) componentNodes' h')
      else Some (componentNodes, h))"

definition BFS :: "nat \<Rightarrow> nat \<Rightarrow> heap \<Rightarrow> (nat list \<times> heap) option" where
  "BFS fuel start h = BFS_loop fuel 0 [start] (h(start := (h start)\<lparr>visited := True\<rparr>))"

section \<open>The layout of a weekday\<close>

definition setIdx :: "nat list \<Rightarrow> heap \<Rightarrow> heap" where
  "setIdx blocks h = fold (\<lambda>(i, b) h'. h'(b := (h' b)\<lparr>idx := i\<rparr>)) (enumerate 0 blocks) h"

definition fullWidth :: "nat list \<Rightarrow> heap \<Rightarrow> heap" where
  "fullWidth blocks h =
     fold (\<lambda>node h'. h'(node := (h' node)\<lparr>left := Fin 0, width := Fin 1\<rparr>)) blocks h"

definition pathWidth :: "nat list \<Rightarrow> heap \<Rightarrow> heap" where
  "pathWidth blocks h =
     fold (\<lambda>b h'. h'(b := (h' b)\<lparr>left := js_div (depth (h' b)) (pathDepth (h' b)),
                                  width := js_div 1 (pathDepth (h' b))\<rparr>)) blocks h"

text \<open>
  The last loop of the body: every block that is neither visited nor fixed starts a component,
  which is handed to \<^verbatim>\<open>buildGLPKModel\<close>.  That function (\<^verbatim>\<open>algorithm/LP\<close>) and the solver behind
  it are not among the sources; the model records the components in the order in which they
  are handed over and does not model what the solver later writes.
\<close>

definition dispatch :: "nat \<Rightarrow> nat list \<Rightarrow> heap \<times> nat list list \<Rightarrow> (heap \<times> nat list list) option" where
  "dispatch fuel blocks st =
     foldo (\<lambda>b (h, promises).
              if \<not> visited (h b) \<and> \<not> isFixed (h b) then
                (case BFS fuel b h of
                   None \<Rightarrow> None
                 | Some (component, h') \<Rightarrow> Some (h', promises @ [component]))
              else Some (h, promises)) blocks st"

text \<open>
  The body of the loop over the days in \<^verbatim>\<open>computeBlockPositions\<close>.  The result is the array in
  its final order, the store, and the components handed to the optimizer so far.
\<close>

definition layoutWeekday :: "nat \<Rightarrow> nat list \<Rightarrow> heap \<times> nat list list
    \<Rightarrow> (nat list \<times> heap \<times> nat list list) option" where
  "layoutWeekday fuel blocks st =
     (case st of (h, promises) \<Rightarrow>
        (case intervalScheduling2 blocks (constructAdjList blocks (setIdx blocks h)) of
           (total', blocks1, h2) \<Rightarrow>
             if total' \<le> 1 then Some (blocks1, fullWidth blocks1 h2, promises)
             else
               (case calculateMaxDepth fuel blocks1 h2 of
                  None \<Rightarrow> None
                | Some (blocks2, h3) \<Rightarrow>
                    (case dispatch fuel blocks2
                            (clearVisited blocks2 (pathWidth blocks2 h3), promises) of
                       None \<Rightarrow> None
                     | Some (h4, promises') \<Rightarrow> Some (blocks2, h4, promises')))))"

definition computeBlockPositions :: "nat \<Rightarrow> nat list list \<Rightarrow> heap
    \<Rightarrow> (nat list list \<times> heap \<times> nat list list) option" where
  "computeBlockPositions fuel days h =
     foldo (\<lambda>blocks (days', h', promises).
              (case layoutWeekday fuel blocks (h', promises) of
                 None \<Rightarrow> None
               | Some (blocks', h'', promises') \<Rightarrow> Some (days' @ [blocks'], h'', promises')))
       days ([], h, [])"

section \<open>The scan of the quadratic scheduler\<close>

text \<open>A room is free for \<open>block\<close> when its last block ends at or before the start of \<open>block\<close>.\<close>

definition roomFree :: "heap \<Rightarrow> nat \<Rightarrow> nat \<Rightarrow> bool" where
  "roomFree h block prevBlock \<longleftrightarrow> endMin (h prevBlock) \<le> startMin (h block)"

text \<open>Position \<open>i\<close> of \<open>occ\<close> holds a free room whose depth is lowest among the free rooms.\<close>

definition lowestFree :: "heap \<Rightarrow> nat \<Rightarrow> nat list \<Rightarrow> nat \<Rightarrow> bool" where
  "lowestFree h block occ i \<longleftrightarrow>
     i < length occ \<and> roomFree h block (occ ! i) \<and>
     (\<forall>k<length occ. roomFree h block (occ ! k) \<longrightarrow> depth (h (occ ! i)) \<le> depth (h (occ ! k)))"

text \<open>The invariant of the scan after the prefix \<open>pre\<close> of \<^verbatim>\<open>occupied\<close> has been read.\<close>

definition scanInv :: "heap \<Rightarrow> nat \<Rightarrow> nat list \<Rightarrow> int option \<times> nat option \<Rightarrow> bool" where
  "scanInv h block pre acc \<longleftrightarrow>
     (case acc of
        (m, None) \<Rightarrow> m = None \<and> (\<forall>k<length pre. \<not> roomFree h block (pre ! k))
      | (m, Some i) \<Rightarrow> m = Some (depth (h (pre ! i))) \<and> lowestFree h block pre i)"

lemma scanInv_step:
  assumes "scanInv h block pre (m, ix)"
  shows "scanInv h block (pre @ [p])
           (if endMin (h p) \<le> startMin (h block) \<and>
               (case m of None \<Rightarrow> True | Some d \<Rightarrow> depth (h p) < d)
            then (Some (depth (h p)), Some (length pre)) else (m, ix))"
proof (cases ix)
  case None
  with assms show ?thesis
    by (auto simp: scanInv_def lowestFree_def roomFree_def nth_append less_Suc_eq)
next
  case (Some i)
  with assms show ?thesis
    by (fastforce simp: scanInv_def lowestFree_def roomFree_def nth_append less_Suc_eq)
qed

lemma findRoom_inv:
  "scanInv h block pre acc \<Longrightarrow>
   scanInv h block (pre @ occ) (findRoom h block occ (length pre) acc)"
proof (induction occ arbitrary: pre acc)
  case Nil
  then show ?case by simp
next
  case (Cons p occ)
  obtain m ix where acc: "acc = (m, ix)" by (cases acc)
  from Cons.prems have "scanInv h block (pre @ [p])
           (if endMin (h p) \<le> startMin (h block) \<and>
               (case m of None \<Rightarrow> True | Some d \<Rightarrow> depth (h p) < d)
            then (Some (depth (h p)), Some (length pre)) else (m, ix))"
    unfolding acc by (rule scanInv_step)
  from Cons.IH[OF this] show ?case by (simp add: acc)
qed

lemma findRoom_result: "scanInv h block occ (findRoom h block occ 0 (None, None))"
  using findRoom_inv[of h block "[]" "(None, None)" occ] by (simp add: scanInv_def)

lemma findRoom_None:
  "snd (findRoom h block occ 0 (None, None)) = None \<Longrightarrow> k < length occ
   \<Longrightarrow> \<not> roomFree h block (occ ! k)"
  using findRoom_result[of h block occ]
  by (cases "findRoom h block occ 0 (None, None)") (auto simp: scanInv_def)

lemma findRoom_Some:
  "snd (findRoom h block occ 0 (None, None)) = Some i \<Longrightarrow> lowestFree h block occ i"
  using findRoom_result[of h block occ]
  by (cases "findRoom h block occ 0 (None, None)") (auto simp: scanInv_def)

lemma schedStep_cases:
  "(\<exists>i. lowestFree h block occupied i \<and>
        schedStep block (h, occupied, numRooms) =
          (h(block := (h block)\<lparr>depth := depth (h (occupied ! i))\<rparr>),
           occupied[i := block], numRooms))
   \<or> ((\<forall>k<length occupied. \<not> roomFree h block (occupied ! k)) \<and>
        schedStep block (h, occupied, numRooms) =
          (h(block := (h block)\<lparr>depth := numRooms + 1\<rparr>), occupied @ [block], numRooms + 1))"
proof (cases "snd (findRoom h block occupied 0 (None, None))")
  case None
  then show ?thesis using findRoom_None[OF None] by (simp add: schedStep_def)
next
  case (Some i)
  then show ?thesis using findRoom_Some[OF Some] by (auto simp add: schedStep_def)
qed

subsection \<open>Sorting\<close>

lemma set_insort_cmp [simp]: "set (insort_cmp cmp x xs) = insert x (set xs)"
  by (induction xs) auto

lemma mset_insort_cmp [simp]: "mset (insort_cmp cmp x xs) = add_mset x (mset xs)"
  by (induction xs) auto

lemma mset_sort_cmp [simp]: "mset (sort_cmp cmp xs) = mset xs"
  by (induction xs) (auto simp: sort_cmp_def)

lemma set_sort_cmp [simp]: "set (sort_cmp cmp xs) = set xs"
  using mset_sort_cmp[of cmp xs] by (metis set_mset_mset)

lemma distinct_sort_cmp [simp]: "distinct (sort_cmp cmp xs) = distinct xs"
  using mset_sort_cmp[of cmp xs] by (metis mset_eq_imp_distinct_iff)

lemma length_sort_cmp [simp]: "length (sort_cmp cmp xs) = length xs"
  using mset_sort_cmp[of cmp xs] by (metis size_mset)

lemma sort_cmp_Nil_iff [simp]: "sort_cmp cmp xs = [] \<longleftrightarrow> xs = []"
  using length_sort_cmp[of cmp xs] by (metis length_0_conv)

lemma sorted_insort_cmp:
  assumes total: "\<And>a b. \<not> cmp a b \<le> 0 \<Longrightarrow> cmp b a \<le> 0"
    and trans: "\<And>a b c. cmp a b \<le> 0 \<Longrightarrow> cmp b c \<le> 0 \<Longrightarrow> cmp a c \<le> 0"
  shows "sorted_wrt (\<lambda>a b. cmp a b \<le> 0) xs \<Longrightarrow> sorted_wrt (\<lambda>a b. cmp a b \<le> 0) (insort_cmp cmp x xs)"
proof (induction xs)
  case Nil
  then show ?case by simp
next
  case (Cons y ys)
  show ?case
  proof (cases "cmp x y \<le> 0")
    case True
    with Cons.prems trans show ?thesis by auto
  next
    case False
    with Cons total show ?thesis by auto
  qed
qed

lemma sorted_sort_cmp:
  assumes total: "\<And>a b. \<not> cmp a b \<le> 0 \<Longrightarrow> cmp b a \<le> 0"
    and trans: "\<And>a b c. cmp a b \<le> 0 \<Longrightarrow> cmp b c \<le> 0 \<Longrightarrow> cmp a c \<le> 0"
  shows "sorted_wrt (\<lambda>a b. cmp a b \<le> 0) (sort_cmp cmp xs)"
proof (induction xs)
  case Nil
  then show ?case by (simp add: sort_cmp_def)
next
  case (Cons x xs)
  have "sort_cmp cmp (x # xs) = insort_cmp cmp x (sort_cmp cmp xs)"
    by (simp add: sort_cmp_def)
  with Cons sorted_insort_cmp[OF total trans] show ?case by simp
qed

lemma sorted_cmpStart:
  "sorted_wrt (\<lambda>a b. startMin (h a) \<le> startMin (h b)) (sort_cmp (cmpStart h) xs)"
proof -
  have "sorted_wrt (\<lambda>a b. cmpStart h a b \<le> 0) (sort_cmp (cmpStart h) xs)"
    by (rule sorted_sort_cmp) (auto simp: cmpStart_def Let_def split: if_splits)
  moreover have "cmpStart h a b \<le> 0 \<Longrightarrow> startMin (h a) \<le> startMin (h b)" for a b
    by (auto simp: cmpStart_def Let_def split: if_splits)
  ultimately show ?thesis by (rule sorted_wrt_mono_rel[rotated]) auto
qed

lemma sorted_cmpDepth:
  "sorted_wrt (\<lambda>a b. depth (h b) \<le> depth (h a)) (sort_cmp (\<lambda>v1 v2. depth (h v2) - depth (h v1)) xs)"
proof -
  have "sorted_wrt (\<lambda>a b. depth (h b) - depth (h a) \<le> 0)
          (sort_cmp (\<lambda>v1 v2. depth (h v2) - depth (h v1)) xs)"
    by (rule sorted_sort_cmp) auto
  then show ?thesis by (rule sorted_wrt_mono_rel[rotated]) auto
qed

section \<open>Rooms: what both schedulers maintain\<close>

text \<open>
  Both schedulers keep one representative per room (the last block placed in the room) and the
  number of the highest room.  A step for block \<open>x\<close> either opens a new room, when every
  representative still runs at the start of \<open>x\<close>, or puts \<open>x\<close> into the room of a
  representative that has ended.
\<close>

definition setDepth :: "nat \<Rightarrow> int \<Rightarrow> heap \<Rightarrow> heap" where
  "setDepth x d h = h(x := (h x)\<lparr>depth := d\<rparr>)"

definition roomStep :: "nat \<Rightarrow> heap \<times> nat list \<times> int \<Rightarrow> heap \<times> nat list \<times> int \<Rightarrow> bool" where
  "roomStep x st st' \<longleftrightarrow>
     (case st of (h, reps, n) \<Rightarrow> case st' of (h', reps', n') \<Rightarrow>
        ((\<forall>r\<in>set reps. startMin (h x) < endMin (h r)) \<and>
           h' = setDepth x (n + 1) h \<and> mset reps' = add_mset x (mset reps) \<and> n' = n + 1)
      \<or> (\<exists>r\<in>set reps. endMin (h r) \<le> startMin (h x) \<and>
           h' = setDepth x (depth (h r)) h \<and>
           mset reps' = add_mset x (mset reps - {#r#}) \<and> n' = n))"

definition activeAt :: "heap \<Rightarrow> nat set \<Rightarrow> int \<Rightarrow> nat set" where
  "activeAt h D t = {a \<in> D. startMin (h a) \<le> t \<and> t < endMin (h a)}"

definition roomInv :: "nat set \<Rightarrow> int \<Rightarrow> heap \<times> nat list \<times> int \<Rightarrow> bool" where
  "roomInv D S st \<longleftrightarrow>
     (case st of (h, reps, n) \<Rightarrow>
        finite D \<and> 0 \<le> n \<and> distinct reps \<and> set reps \<subseteq> D \<and>
        inj_on (\<lambda>r. depth (h r)) (set reps) \<and>
        (\<lambda>r. depth (h r)) ` set reps = {0..n} \<and>
        (\<forall>a\<in>D. a \<in> set reps \<or> endMin (h a) \<le> S) \<and>
        (\<forall>a\<in>D. \<forall>b\<in>D. a \<noteq> b \<and> depth (h a) = depth (h b) \<longrightarrow> \<not> conflict (h a) (h b)) \<and>
        (\<forall>a\<in>D. startMin (h a) \<le> S) \<and>
        (\<forall>a\<in>D. 0 \<le> depth (h a) \<and> depth (h a) \<le> n) \<and>
        ((\<forall>a\<in>D. startMin (h a) < endMin (h a)) \<longrightarrow>
           (\<exists>t. n + 1 \<le> int (card (activeAt h D t)))))"

lemma roomInvI:
  assumes "finite D" "0 \<le> n" "distinct reps" "set reps \<subseteq> D"
    "inj_on (\<lambda>r. depth (h r)) (set reps)"
    "(\<lambda>r. depth (h r)) ` set reps = {0..n}"
    "\<forall>a\<in>D. a \<in> set reps \<or> endMin (h a) \<le> S"
    "\<forall>a\<in>D. \<forall>b\<in>D. a \<noteq> b \<and> depth (h a) = depth (h b) \<longrightarrow> \<not> conflict (h a) (h b)"
    "\<forall>a\<in>D. startMin (h a) \<le> S"
    "\<forall>a\<in>D. 0 \<le> depth (h a) \<and> depth (h a) \<le> n"
    "(\<forall>a\<in>D. startMin (h a) < endMin (h a)) \<longrightarrow>
           (\<exists>t. n + 1 \<le> int (card (activeAt h D t)))"
  shows "roomInv D S (h, reps, n)"
  unfolding roomInv_def prod.case by (intro conjI assms)

lemma setDepth_other [simp]: "a \<noteq> x \<Longrightarrow> setDepth x d h a = h a"
  by (simp add: setDepth_def)

lemma setDepth_fields [simp]:
  "startMin (setDepth x d h a) = startMin (h a)"
  "endMin (setDepth x d h a) = endMin (h a)"
  "depth (setDepth x d h x) = d"
  by (simp_all add: setDepth_def)

lemma conflict_setDepth [simp]:
  "conflict (setDepth x d h a) (setDepth x d h b) = conflict (h a) (h b)"
  by (simp add: conflict_def)

lemma activeAt_setDepth [simp]: "activeAt (setDepth x d h) D t = activeAt h D t"
  by (simp add: activeAt_def)

lemma roomInv_card_reps:
  assumes "roomInv D S (h, reps, n)"
  shows "int (card (set reps)) = n + 1"
proof -
  from assms have inj: "inj_on (\<lambda>r. depth (h r)) (set reps)"
    and img: "(\<lambda>r. depth (h r)) ` set reps = {0..n}" and n: "0 \<le> n"
    by (simp_all add: roomInv_def)
  have "card (set reps) = card ((\<lambda>r. depth (h r)) ` set reps)"
    using inj by (simp add: card_image)
  also have "\<dots> = card {0..n}" by (simp add: img)
  finally show ?thesis using n by simp
qed

lemma roomInv_new:
  assumes inv: "roomInv D S (h, reps, n)"
    and x: "x \<notin> D" and S: "S \<le> startMin (h x)"
    and busy: "\<forall>r\<in>set reps. startMin (h x) < endMin (h r)"
    and reps': "mset reps' = add_mset x (mset reps)"
  shows "roomInv (insert x D) (startMin (h x)) (setDepth x (n + 1) h, reps', n + 1)"
proof -
  let ?h = "setDepth x (n + 1) h"
  from inv have fin: "finite D" and n: "0 \<le> n" and dist: "distinct reps" and sub: "set reps \<subseteq> D"
    and inj: "inj_on (\<lambda>r. depth (h r)) (set reps)"
    and img: "(\<lambda>r. depth (h r)) ` set reps = {0..n}"
    and ended: "\<forall>a\<in>D. a \<in> set reps \<or> endMin (h a) \<le> S"
    and nocf: "\<forall>a\<in>D. \<forall>b\<in>D. a \<noteq> b \<and> depth (h a) = depth (h b) \<longrightarrow> \<not> conflict (h a) (h b)"
    and starts: "\<forall>a\<in>D. startMin (h a) \<le> S"
    and rng: "\<forall>a\<in>D. 0 \<le> depth (h a) \<and> depth (h a) \<le> n"
    and clique: "(\<forall>a\<in>D. startMin (h a) < endMin (h a)) \<longrightarrow>
           (\<exists>t. n + 1 \<le> int (card (activeAt h D t)))"
    by (simp_all add: roomInv_def)
  have same: "?h a = h a" if "a \<in> D" for a
  proof -
    from that x have "a \<noteq> x" by blast
    then show ?thesis by simp
  qed
  have xr: "x \<notin> set reps" using x sub by auto
  have set': "set reps' = insert x (set reps)"
    using reps' by (metis set_mset_add_mset_insert set_mset_mset)
  have dist': "distinct reps'"
    using reps' dist xr by (metis distinct.simps(2) mset.simps(2) mset_eq_imp_distinct_iff)
  have depth_reps: "depth (?h r) = depth (h r)" if "r \<in> set reps" for r
    using that same sub by auto
  have img': "(\<lambda>r. depth (?h r)) ` set reps = {0..n}"
  proof -
    have "(\<lambda>r. depth (?h r)) ` set reps = (\<lambda>r. depth (h r)) ` set reps"
      by (rule image_cong) (simp_all add: depth_reps)
    then show ?thesis by (simp only: img)
  qed
  have c1: "inj_on (\<lambda>r. depth (?h r)) (set reps')"
  proof -
    have "inj_on (\<lambda>r. depth (?h r)) (set reps)"
      by (rule inj_onI) (metis depth_reps inj inj_onD)
    moreover have "depth (?h x) \<notin> (\<lambda>r. depth (?h r)) ` set reps"
      unfolding img' by simp
    moreover have "set reps - {x} = set reps" using xr by simp
    ultimately show ?thesis unfolding set' by (simp only: inj_on_insert) simp
  qed
  have c2: "(\<lambda>r. depth (?h r)) ` set reps' = {0..n + 1}"
  proof -
    have "(\<lambda>r. depth (?h r)) ` set reps' = insert (n + 1) ((\<lambda>r. depth (?h r)) ` set reps)"
      unfolding set' by simp
    also have "\<dots> = insert (n + 1) {0..n}" by (simp only: img')
    also have "\<dots> = {0..n + 1}" using n by auto
    finally show ?thesis .
  qed
  have c3: "\<forall>a\<in>insert x D. a \<in> set reps' \<or> endMin (?h a) \<le> startMin (h x)"
    using ended S set' by fastforce
  have c4: "\<forall>a\<in>insert x D. \<forall>b\<in>insert x D.
      a \<noteq> b \<and> depth (?h a) = depth (?h b) \<longrightarrow> \<not> conflict (?h a) (?h b)"
  proof (intro ballI impI)
    fix a b assume a: "a \<in> insert x D" and b: "b \<in> insert x D"
      and ab: "a \<noteq> b \<and> depth (?h a) = depth (?h b)"
    show "\<not> conflict (?h a) (?h b)"
    proof (cases "a = x \<or> b = x")
      case True
      then obtain c where c: "c \<in> D" "depth (h c) = n + 1"
        using a b ab same by (metis insertE setDepth_fields(3))
      with rng show ?thesis by auto
    next
      case False
      with a b ab nocf same show ?thesis by (metis conflict_setDepth insertE)
    qed
  qed
  have c5: "\<forall>a\<in>insert x D. startMin (?h a) \<le> startMin (h x)"
    using starts S by fastforce
  have c6: "\<forall>a\<in>insert x D. 0 \<le> depth (?h a) \<and> depth (?h a) \<le> n + 1"
  proof
    fix a assume "a \<in> insert x D"
    then show "0 \<le> depth (?h a) \<and> depth (?h a) \<le> n + 1"
      using rng same n by (cases "a = x") auto
  qed
  have c7: "(\<forall>a\<in>insert x D. startMin (?h a) < endMin (?h a)) \<longrightarrow>
           (\<exists>t. n + 1 + 1 \<le> int (card (activeAt ?h (insert x D) t)))"
  proof
    assume wf: "\<forall>a\<in>insert x D. startMin (?h a) < endMin (?h a)"
    have "insert x (set reps) \<subseteq> activeAt h (insert x D) (startMin (h x))"
      using wf busy starts sub S by (fastforce simp: activeAt_def)
    moreover have "finite (activeAt h (insert x D) (startMin (h x)))"
      using fin by (simp add: activeAt_def)
    ultimately have "card (insert x (set reps)) \<le> card (activeAt h (insert x D) (startMin (h x)))"
      by (rule card_mono[rotated])
    moreover have "int (card (insert x (set reps))) = n + 1 + 1"
      using roomInv_card_reps[OF inv] xr by simp
    ultimately have "n + 1 + 1 \<le> int (card (activeAt ?h (insert x D) (startMin (h x))))"
      by simp
    then show "\<exists>t. n + 1 + 1 \<le> int (card (activeAt ?h (insert x D) t))" ..
  qed
  have fin': "finite (insert x D)" using fin by simp
  have n': "0 \<le> n + 1" using n by simp
  have sub': "set reps' \<subseteq> insert x D" unfolding set' using sub by blast
  have c3': "\<forall>a\<in>insert x D. a \<in> set reps' \<or> endMin (?h a) \<le> startMin (h x)"
    using c3 by simp
  show ?thesis
    by (rule roomInvI[OF fin' n' dist' sub' c1 c2 c3' c4 c5 c6 c7])
qed


lemma conflict_sym: "conflict a b \<Longrightarrow> conflict b a"
  by (auto simp: conflict_def)

lemma roomInv_reuse:
  assumes inv: "roomInv D S (h, reps, n)"
    and x: "x \<notin> D" and S: "S \<le> startMin (h x)"
    and r: "r \<in> set reps" and free: "endMin (h r) \<le> startMin (h x)"
    and reps': "mset reps' = add_mset x (mset reps - {#r#})"
  shows "roomInv (insert x D) (startMin (h x)) (setDepth x (depth (h r)) h, reps', n)"
proof -
  let ?h = "setDepth x (depth (h r)) h"
  from inv have fin: "finite D" and n: "0 \<le> n" and dist: "distinct reps" and sub: "set reps \<subseteq> D"
    and inj: "inj_on (\<lambda>r. depth (h r)) (set reps)"
    and img: "(\<lambda>r. depth (h r)) ` set reps = {0..n}"
    and ended: "\<forall>a\<in>D. a \<in> set reps \<or> endMin (h a) \<le> S"
    and nocf: "\<forall>a\<in>D. \<forall>b\<in>D. a \<noteq> b \<and> depth (h a) = depth (h b) \<longrightarrow> \<not> conflict (h a) (h b)"
    and starts: "\<forall>a\<in>D. startMin (h a) \<le> S"
    and rng: "\<forall>a\<in>D. 0 \<le> depth (h a) \<and> depth (h a) \<le> n"
    and clique: "(\<forall>a\<in>D. startMin (h a) < endMin (h a)) \<longrightarrow>
           (\<exists>t. n + 1 \<le> int (card (activeAt h D t)))"
    by (simp_all add: roomInv_def)
  have same: "?h a = h a" if "a \<in> D" for a
  proof -
    from that x have "a \<noteq> x" by blast
    then show ?thesis by simp
  qed
  have hx: "depth (?h x) = depth (h r)" by simp
  have xr: "x \<notin> set reps" using x sub by auto
  have set': "set reps' = insert x (set reps - {r})"
  proof -
    have "set reps' = set_mset (add_mset x (mset reps - {#r#}))"
      using reps' by (metis set_mset_mset)
    also have "\<dots> = insert x (set_mset (mset reps - {#r#}))" by simp
    also have "set_mset (mset reps - {#r#}) = set reps - {r}"
      using dist by (metis mset_remove1 set_mset_mset set_remove1_eq)
    finally show ?thesis .
  qed
  have dist': "distinct reps'"
  proof -
    have "mset reps' = mset (x # remove1 r reps)" using reps' by simp
    moreover have "distinct (x # remove1 r reps)" using dist xr by (auto dest: notin_set_remove1)
    ultimately show ?thesis by (metis mset_eq_imp_distinct_iff)
  qed
  have depth_reps: "depth (?h a) = depth (h a)" if "a \<in> set reps" for a
    using that same sub by auto
  have rest_ne: "depth (h a) \<noteq> depth (h r)" if "a \<in> set reps - {r}" for a
    using that inj r by (auto dest: inj_onD)
  have c1: "inj_on (\<lambda>r. depth (?h r)) (set reps')"
  proof -
    have "inj_on (\<lambda>r. depth (?h r)) (set reps - {r})"
      by (rule inj_onI) (metis DiffD1 depth_reps inj inj_onD)
    moreover have "depth (?h x) \<notin> (\<lambda>r. depth (?h r)) ` (set reps - {r})"
    proof
      assume "depth (?h x) \<in> (\<lambda>r. depth (?h r)) ` (set reps - {r})"
      then obtain a where a: "a \<in> set reps - {r}" and "depth (?h x) = depth (?h a)" by blast
      then have "depth (h r) = depth (h a)" using depth_reps hx by (metis DiffD1)
      with rest_ne[OF a] show False by simp
    qed
    moreover have "set reps - {r} - {x} = set reps - {r}" using xr by blast
    ultimately show ?thesis unfolding set' by (simp only: inj_on_insert) simp
  qed
  have c2: "(\<lambda>r. depth (?h r)) ` set reps' = {0..n}"
  proof -
    have "(\<lambda>a. depth (?h a)) ` (set reps - {r}) = (\<lambda>a. depth (h a)) ` (set reps - {r})"
      by (rule image_cong) (simp_all add: depth_reps)
    then have "(\<lambda>a. depth (?h a)) ` set reps' =
        insert (depth (h r)) ((\<lambda>a. depth (h a)) ` (set reps - {r}))"
      unfolding set' by (simp only: image_insert hx)
    also have "\<dots> = (\<lambda>a. depth (h a)) ` set reps" using r by blast
    finally show ?thesis by (simp only: img)
  qed
  have c3: "\<forall>a\<in>insert x D. a \<in> set reps' \<or> endMin (?h a) \<le> startMin (h x)"
  proof
    fix a assume a: "a \<in> insert x D"
    show "a \<in> set reps' \<or> endMin (?h a) \<le> startMin (h x)"
    proof (cases "a = x \<or> (a \<in> set reps \<and> a \<noteq> r)")
      case True
      then show ?thesis unfolding set' by blast
    next
      case False
      with a have aD: "a \<in> D" by blast
      show ?thesis
      proof (cases "a = r")
        case True
        with free show ?thesis by simp
      next
        case False
        with \<open>\<not> (a = x \<or> (a \<in> set reps \<and> a \<noteq> r))\<close> have "a \<notin> set reps" by blast
        with ended aD have "endMin (h a) \<le> S" by blast
        with S show ?thesis by simp
      qed
    qed
  qed
  have key: "\<not> conflict (h x) (h b) \<and> \<not> conflict (h b) (h x)"
    if b: "b \<in> D" and d: "depth (h b) = depth (h r)" for b
  proof -
    have "endMin (h b) \<le> startMin (h x)"
    proof (cases "b \<in> set reps")
      case True
      with d inj r have "b = r" by (auto dest: inj_onD)
      with free show ?thesis by simp
    next
      case False
      with ended b have "endMin (h b) \<le> S" by blast
      with S show ?thesis by simp
    qed
    then show ?thesis by (auto simp: conflict_def)
  qed
  have c4: "\<forall>a\<in>insert x D. \<forall>b\<in>insert x D.
      a \<noteq> b \<and> depth (?h a) = depth (?h b) \<longrightarrow> \<not> conflict (?h a) (?h b)"
  proof (intro ballI impI)
    fix a b assume a: "a \<in> insert x D" and b: "b \<in> insert x D"
      and ab: "a \<noteq> b \<and> depth (?h a) = depth (?h b)"
    have cf: "conflict (?h a) (?h b) = conflict (h a) (h b)" by simp
    show "\<not> conflict (?h a) (?h b)"
    proof (cases "a = x")
      case True
      with ab b have bD: "b \<in> D" by blast
      with ab True have "depth (h b) = depth (h r)" using same[OF bD] hx by simp
      from key[OF bD this] True show ?thesis unfolding cf by simp
    next
      case ax: False
      with a have aD: "a \<in> D" by blast
      show ?thesis
      proof (cases "b = x")
        case True
        with ab have "depth (h a) = depth (h r)" using same[OF aD] hx by simp
        from key[OF aD this] True show ?thesis unfolding cf by simp
      next
        case False
        with b have bD: "b \<in> D" by blast
        from ab have "a \<noteq> b \<and> depth (h a) = depth (h b)"
          using same[OF aD] same[OF bD] by simp
        with nocf aD bD show ?thesis unfolding cf by blast
      qed
    qed
  qed
  have c5: "\<forall>a\<in>insert x D. startMin (?h a) \<le> startMin (h x)"
    using starts S by fastforce
  have c6: "\<forall>a\<in>insert x D. 0 \<le> depth (?h a) \<and> depth (?h a) \<le> n"
  proof
    fix a assume a: "a \<in> insert x D"
    show "0 \<le> depth (?h a) \<and> depth (?h a) \<le> n"
    proof (cases "a = x")
      case True
      with rng r sub show ?thesis unfolding True hx by blast
    next
      case False
      with a rng same show ?thesis by auto
    qed
  qed
  have c7: "(\<forall>a\<in>insert x D. startMin (?h a) < endMin (?h a)) \<longrightarrow>
           (\<exists>t. n + 1 \<le> int (card (activeAt ?h (insert x D) t)))"
  proof
    assume wf: "\<forall>a\<in>insert x D. startMin (?h a) < endMin (?h a)"
    then have "\<forall>a\<in>D. startMin (h a) < endMin (h a)" by simp
    with clique obtain t where t: "n + 1 \<le> int (card (activeAt h D t))" by blast
    have "activeAt h D t \<subseteq> activeAt h (insert x D) t" by (auto simp: activeAt_def)
    moreover have "finite (activeAt h (insert x D) t)" using fin by (simp add: activeAt_def)
    ultimately have "card (activeAt h D t) \<le> card (activeAt h (insert x D) t)"
      by (rule card_mono[rotated])
    with t have "n + 1 \<le> int (card (activeAt ?h (insert x D) t))" by simp
    then show "\<exists>t. n + 1 \<le> int (card (activeAt ?h (insert x D) t))" ..
  qed
  have fin': "finite (insert x D)" using fin by simp
  have sub': "set reps' \<subseteq> insert x D" unfolding set' using sub by blast
  show ?thesis
    by (rule roomInvI[OF fin' n dist' sub' c1 c2 c3 c4 c5 c6 c7])
qed

lemma roomStep_preserves:
  assumes "roomInv D S st" and "roomStep x st st'" and "x \<notin> D" and "S \<le> startMin (fst st x)"
  shows "roomInv (insert x D) (startMin (fst st x)) st'"
proof -
  obtain h reps n where st: "st = (h, reps, n)" by (cases st)
  obtain h' reps' n' where st': "st' = (h', reps', n')" by (cases st')
  from assms(2) consider
    (new) "\<forall>r\<in>set reps. startMin (h x) < endMin (h r)" "h' = setDepth x (n + 1) h"
      "mset reps' = add_mset x (mset reps)" "n' = n + 1"
  | (reuse) r where "r \<in> set reps" "endMin (h r) \<le> startMin (h x)"
      "h' = setDepth x (depth (h r)) h" "mset reps' = add_mset x (mset reps - {#r#})" "n' = n"
    unfolding roomStep_def st st' by auto
  then show ?thesis
  proof cases
    case new
    with roomInv_new[of D S h reps n x reps'] assms show ?thesis by (simp add: st st')
  next
    case reuse
    with roomInv_reuse[of D S h reps n x r reps'] assms show ?thesis by (simp add: st st')
  qed
qed


lemma roomStep_setDepth:
  "roomStep x (h, reps, n) (h', reps', n') \<Longrightarrow> \<exists>d. h' = setDepth x d h"
  by (auto simp: roomStep_def)

text \<open>The store after some blocks were given a depth: nothing but their depth has changed.\<close>

definition depthOnly :: "nat set \<Rightarrow> heap \<Rightarrow> heap \<Rightarrow> bool" where
  "depthOnly X h h' \<longleftrightarrow> (\<forall>a. h' a = (h a)\<lparr>depth := depth (h' a)\<rparr> \<and> (a \<notin> X \<longrightarrow> h' a = h a))"

lemma depthOnly_refl: "depthOnly {} h h"
  by (simp add: depthOnly_def)

lemma depthOnly_setDepth:
  assumes "depthOnly X h h1"
  shows "depthOnly (insert x X) h (setDepth x d h1)"
  unfolding depthOnly_def
proof (intro allI conjI impI)
  fix a
  from assms have a: "h1 a = (h a)\<lparr>depth := depth (h1 a)\<rparr>" by (simp add: depthOnly_def)
  show "setDepth x d h1 a = (h a)\<lparr>depth := depth (setDepth x d h1 a)\<rparr>"
  proof (cases "a = x")
    case True
    have "(h1 x)\<lparr>depth := d\<rparr> = ((h x)\<lparr>depth := depth (h1 x)\<rparr>)\<lparr>depth := d\<rparr>"
      using a True by simp
    then show ?thesis using True by (simp add: setDepth_def)
  next
    case False
    then show ?thesis using a by simp
  qed
next
  fix a assume "a \<notin> insert x X"
  then have "a \<noteq> x" "a \<notin> X" by auto
  with assms show "setDepth x d h1 a = h a" by (simp add: depthOnly_def)
qed

lemma depthOnly_fields:
  assumes "depthOnly X h h'"
  shows "startMin (h' a) = startMin (h a)" "endMin (h' a) = endMin (h a)"
    "neighbors (h' a) = neighbors (h a)" "visited (h' a) = visited (h a)"
    "pathDepth (h' a) = pathDepth (h a)" "isFixed (h' a) = isFixed (h a)"
    "left (h' a) = left (h a)" "width (h' a) = width (h a)" "idx (h' a) = idx (h a)"
proof -
  from assms have a: "h' a = (h a)\<lparr>depth := depth (h' a)\<rparr>" by (simp add: depthOnly_def)
  show "startMin (h' a) = startMin (h a)" by (subst a) simp
  show "endMin (h' a) = endMin (h a)" by (subst a) simp
  show "neighbors (h' a) = neighbors (h a)" by (subst a) simp
  show "visited (h' a) = visited (h a)" by (subst a) simp
  show "pathDepth (h' a) = pathDepth (h a)" by (subst a) simp
  show "isFixed (h' a) = isFixed (h a)" by (subst a) simp
  show "left (h' a) = left (h a)" by (subst a) simp
  show "width (h' a) = width (h a)" by (subst a) simp
  show "idx (h' a) = idx (h a)" by (subst a) simp
qed

lemma depthOnly_same: "depthOnly X h h' \<Longrightarrow> a \<notin> X \<Longrightarrow> h' a = h a"
  by (simp add: depthOnly_def)

lemma depthOnly_conflict: "depthOnly X h h' \<Longrightarrow> conflict (h' a) (h' b) = conflict (h a) (h b)"
  by (simp add: conflict_def depthOnly_fields)

text \<open>
  A scheduler loop is a fold of a step function.  If every step is a room step (and keeps an
  auxiliary invariant \<open>Aux\<close> of the scheduler's own data structure), the loop keeps the room
  invariant.
\<close>

lemma fold_roomInv:
  assumes step: "\<And>x st. Aux st \<Longrightarrow> roomStep x st (stp x st) \<and> Aux (stp x st)"
  shows "roomInv D S st \<Longrightarrow> Aux st \<Longrightarrow> depthOnly X h0 (fst st) \<Longrightarrow> distinct xs
    \<Longrightarrow> set xs \<inter> D = {}
    \<Longrightarrow> sorted_wrt (\<lambda>a b. startMin (h0 a) \<le> startMin (h0 b)) xs
    \<Longrightarrow> \<forall>x\<in>set xs. S \<le> startMin (h0 x)
    \<Longrightarrow> \<exists>S'. roomInv (D \<union> set xs) S' (fold stp xs st) \<and> Aux (fold stp xs st) \<and>
          depthOnly (X \<union> set xs) h0 (fst (fold stp xs st))"
proof (induction xs arbitrary: D S st X)
  case Nil
  then show ?case by auto
next
  case (Cons x xs)
  let ?st = "stp x st"
  from step[OF Cons.prems(2)] have rs: "roomStep x st ?st" and aux: "Aux ?st" by simp_all
  have sx: "startMin (fst st x) = startMin (h0 x)"
    using Cons.prems(3) by (simp add: depthOnly_fields)
  have xD: "x \<notin> D" using Cons.prems(5) by auto
  have "S \<le> startMin (fst st x)" using Cons.prems(7) sx by simp
  from roomStep_preserves[OF Cons.prems(1) rs xD this]
  have inv: "roomInv (insert x D) (startMin (h0 x)) ?st" by (simp add: sx)
  obtain d where d: "fst ?st = setDepth x d (fst st)"
    using roomStep_setDepth[of x "fst st" "fst (snd st)" "snd (snd st)"
        "fst ?st" "fst (snd ?st)" "snd (snd ?st)"] rs by auto
  have dO: "depthOnly (insert x X) h0 (fst ?st)"
    unfolding d by (rule depthOnly_setDepth[OF Cons.prems(3)])
  have "\<exists>S'. roomInv (insert x D \<union> set xs) S' (fold stp xs ?st) \<and> Aux (fold stp xs ?st) \<and>
          depthOnly (insert x X \<union> set xs) h0 (fst (fold stp xs ?st))"
  proof (rule Cons.IH[OF inv aux dO])
    show "distinct xs" using Cons.prems(4) by simp
    show "set xs \<inter> insert x D = {}" using Cons.prems(4,5) by auto
    show "sorted_wrt (\<lambda>a b. startMin (h0 a) \<le> startMin (h0 b)) xs" using Cons.prems(6) by simp
    show "\<forall>y\<in>set xs. startMin (h0 x) \<le> startMin (h0 y)" using Cons.prems(6) by simp
  qed
  then show ?case by simp
qed

subsection \<open>The quadratic scheduler makes room steps\<close>

lemma schedStep_roomStep: "roomStep x st (schedStep x st)"
proof -
  obtain h occ n where st: "st = (h, occ, n)" by (cases st)
  from schedStep_cases[of h x occ n] show ?thesis
  proof (elim disjE exE conjE)
    fix i assume low: "lowestFree h x occ i"
      and eq: "schedStep x (h, occ, n) =
        (h(x := (h x)\<lparr>depth := depth (h (occ ! i))\<rparr>), occ[i := x], n)"
    from low have i: "i < length occ" and free: "endMin (h (occ ! i)) \<le> startMin (h x)"
      by (simp_all add: lowestFree_def roomFree_def)
    have "mset (occ[i := x]) = add_mset x (mset occ - {#occ ! i#})"
      using i by (simp add: mset_update)
    moreover have "occ ! i \<in> set occ" using i by simp
    ultimately show ?thesis
      unfolding st eq roomStep_def prod.case setDepth_def using free by blast
  next
    assume busy: "\<forall>k<length occ. \<not> roomFree h x (occ ! k)"
      and eq: "schedStep x (h, occ, n) = (h(x := (h x)\<lparr>depth := n + 1\<rparr>), occ @ [x], n + 1)"
    have "\<forall>r\<in>set occ. startMin (h x) < endMin (h r)"
      using busy by (fastforce simp: roomFree_def in_set_conv_nth)
    then show ?thesis
      unfolding st eq roomStep_def prod.case setDepth_def by simp
  qed
qed

subsection \<open>The scheduler with the queue makes room steps\<close>

definition queueInv :: "heap \<times> nat list \<times> int \<Rightarrow> bool" where
  "queueInv st \<longleftrightarrow>
     (case st of (h, queue, n) \<Rightarrow>
        queue \<noteq> [] \<and> sorted_wrt (\<lambda>a b. endMin (h a) \<le> endMin (h b)) queue)"

lemma set_pq_push [simp]: "set (pq_push cmp x xs) = insert x (set xs)"
  by (induction xs) auto

lemma mset_pq_push [simp]: "mset (pq_push cmp x xs) = add_mset x (mset xs)"
  by (induction xs) auto

lemma pq_push_not_Nil [simp]: "pq_push cmp x xs \<noteq> []"
  by (cases xs) auto

lemma sorted_pq_push:
  "sorted_wrt (\<lambda>a b. endMin (h a) \<le> endMin (h b)) q
   \<Longrightarrow> sorted_wrt (\<lambda>a b. endMin (h a) \<le> endMin (h b)) (pq_push (cmpEnd h) x q)"
proof (induction q)
  case Nil
  then show ?case by simp
next
  case (Cons y ys)
  show ?case
  proof (cases "cmpEnd h x y < 0")
    case True
    then have "endMin (h x) \<le> endMin (h y)"
      by (auto simp: cmpEnd_def Let_def split: if_splits)
    with Cons.prems True show ?thesis by fastforce
  next
    case False
    then have "endMin (h y) \<le> endMin (h x)"
      by (auto simp: cmpEnd_def Let_def split: if_splits)
    with Cons False show ?thesis by auto
  qed
qed

lemma sorted_end_setDepth:
  "sorted_wrt (\<lambda>a b. endMin (setDepth x d h a) \<le> endMin (setDepth x d h b)) q
   = sorted_wrt (\<lambda>a b. endMin (h a) \<le> endMin (h b)) q"
  by simp

lemma schedStep2_roomStep:
  assumes "queueInv st"
  shows "roomStep x st (schedStep2 x st) \<and> queueInv (schedStep2 x st)"
proof -
  obtain h q n where st: "st = (h, q, n)" by (cases st)
  from assms obtain p ps where q: "q = p # ps"
    and srt: "sorted_wrt (\<lambda>a b. endMin (h a) \<le> endMin (h b)) (p # ps)"
    unfolding st queueInv_def by (cases q) auto
  show ?thesis
  proof (cases "endMin (h p) > startMin (h x)")
    case True
    let ?h = "setDepth x (n + 1) h"
    have eq: "schedStep2 x (h, q, n) = (?h, pq_push (cmpEnd ?h) x q, n + 1)"
      using True by (simp add: schedStep2_def q setDepth_def Let_def)
    have "\<forall>r\<in>set q. startMin (h x) < endMin (h r)"
      using True srt unfolding q by fastforce
    then have "roomStep x st (schedStep2 x st)"
      unfolding st eq roomStep_def prod.case by simp
    moreover have "sorted_wrt (\<lambda>a b. endMin (?h a) \<le> endMin (?h b)) (pq_push (cmpEnd ?h) x q)"
      by (rule sorted_pq_push) (use srt q in simp)
    then have "queueInv (schedStep2 x st)"
      unfolding st eq queueInv_def prod.case by simp
    ultimately show ?thesis ..
  next
    case False
    let ?h = "setDepth x (depth (h p)) h"
    have eq: "schedStep2 x (h, q, n) = (?h, pq_push (cmpEnd ?h) x ps, n)"
      using False by (simp add: schedStep2_def q setDepth_def Let_def)
    have "mset (pq_push (cmpEnd ?h) x ps) = add_mset x (mset q - {#p#})"
      by (simp add: q)
    moreover have "p \<in> set q" by (simp add: q)
    moreover have "endMin (h p) \<le> startMin (h x)" using False by simp
    ultimately have "roomStep x st (schedStep2 x st)"
      unfolding st eq roomStep_def prod.case by blast
    moreover have "sorted_wrt (\<lambda>a b. endMin (?h a) \<le> endMin (?h b)) (pq_push (cmpEnd ?h) x ps)"
      by (rule sorted_pq_push) (use srt in simp)
    then have "queueInv (schedStep2 x st)"
      unfolding st eq queueInv_def prod.case by simp
    ultimately show ?thesis ..
  qed
qed

subsection \<open>What the schedulers establish\<close>

lemma roomInv_init:
  assumes "depth (h b0) = 0"
  shows "roomInv {b0} (startMin (h b0)) (h, [b0], 0)"
proof (rule roomInvI)
  show "(\<lambda>r. depth (h r)) ` set [b0] = {0..0}" using assms by simp
  show "\<forall>a\<in>{b0}. 0 \<le> depth (h a) \<and> depth (h a) \<le> 0" using assms by simp
  show "(\<forall>a\<in>{b0}. startMin (h a) < endMin (h a)) \<longrightarrow>
    (\<exists>t. 0 + 1 \<le> int (card (activeAt h {b0} t)))"
  proof
    assume "\<forall>a\<in>{b0}. startMin (h a) < endMin (h a)"
    then have "activeAt h {b0} (startMin (h b0)) = {b0}" by (auto simp: activeAt_def)
    then have "0 + 1 \<le> int (card (activeAt h {b0} (startMin (h b0))))" by simp
    then show "\<exists>t. 0 + 1 \<le> int (card (activeAt h {b0} t))" ..
  qed
qed simp_all

lemma sched_loop:
  assumes step: "\<And>x st. Aux st \<Longrightarrow> roomStep x st (stp x st) \<and> Aux (stp x st)"
    and aux0: "Aux (h, [b0], 0)"
    and dist: "distinct blocks"
    and srt: "sort_cmp (cmpStart h) blocks = b0 # rest"
    and d0: "depth (h b0) = 0"
  shows "\<exists>S. roomInv (set blocks) S (fold stp rest (h, [b0], 0)) \<and>
             depthOnly (set rest) h (fst (fold stp rest (h, [b0], 0)))"
proof -
  have sorted: "sorted_wrt (\<lambda>a b. startMin (h a) \<le> startMin (h b)) (b0 # rest)"
    using sorted_cmpStart[of h blocks] srt by simp
  have dist': "distinct (b0 # rest)" using dist srt by (metis distinct_sort_cmp)
  have set': "set blocks = insert b0 (set rest)" using srt by (metis list.simps(15) set_sort_cmp)
  have "\<exists>S'. roomInv ({b0} \<union> set rest) S' (fold stp rest (h, [b0], 0)) \<and>
          Aux (fold stp rest (h, [b0], 0)) \<and>
          depthOnly ({} \<union> set rest) h (fst (fold stp rest (h, [b0], 0)))"
  proof (rule fold_roomInv[where Aux = Aux and stp = stp and D = "{b0}" and S = "startMin (h b0)"
        and st = "(h, [b0], 0)" and X = "{}" and ?h0.0 = h and xs = rest])
    show "\<And>x st. Aux st \<Longrightarrow> roomStep x st (stp x st) \<and> Aux (stp x st)" by (rule step)
    show "roomInv {b0} (startMin (h b0)) (h, [b0], 0)" using d0 by (rule roomInv_init[of h b0])
    show "Aux (h, [b0], 0)" by (rule aux0)
    show "depthOnly {} h (fst (h, [b0], 0))" by (simp add: depthOnly_refl)
    show "distinct rest" using dist' by simp
    show "set rest \<inter> {b0} = {}" using dist' by simp
    show "sorted_wrt (\<lambda>a b. startMin (h a) \<le> startMin (h b)) rest" using sorted by simp
    show "\<forall>x\<in>set rest. startMin (h b0) \<le> startMin (h x)" using sorted by simp
  qed
  then show ?thesis unfolding set' by auto
qed

text \<open>The outcome of a scheduler run, as both schedulers establish it.\<close>

definition scheduled :: "nat list \<Rightarrow> heap \<Rightarrow> int \<times> nat list \<times> heap \<Rightarrow> bool" where
  "scheduled blocks h res \<longleftrightarrow>
     (case res of (n, blocks', h') \<Rightarrow>
        blocks' = sort_cmp (cmpStart h) blocks \<and>
        depthOnly (set (tl blocks')) h h' \<and>
        (\<exists>S reps. roomInv (set blocks) S (h', reps, n - 1)))"

lemma intervalScheduling_scheduled:
  assumes "distinct blocks" "blocks \<noteq> []" "depth (h (hd (sort_cmp (cmpStart h) blocks))) = 0"
  shows "scheduled blocks h (intervalScheduling blocks h)"
proof -
  obtain b0 rest where srt: "sort_cmp (cmpStart h) blocks = b0 # rest"
    using assms(2) by (cases "sort_cmp (cmpStart h) blocks") auto
  obtain h' occ n where f: "fold schedStep rest (h, [b0], 0) = (h', occ, n)"
    by (cases "fold schedStep rest (h, [b0], 0)")
  have d0: "depth (h b0) = 0" using assms(3) srt by simp
  have "\<exists>S. roomInv (set blocks) S (fold schedStep rest (h, [b0], 0)) \<and>
             depthOnly (set rest) h (fst (fold schedStep rest (h, [b0], 0)))"
    by (rule sched_loop[where Aux = "\<lambda>_. True", OF _ _ assms(1) srt d0])
       (simp_all add: schedStep_roomStep)
  then have "\<exists>S. roomInv (set blocks) S (h', occ, n) \<and> depthOnly (set rest) h h'"
    by (simp add: f)
  then show ?thesis
    by (auto simp: scheduled_def intervalScheduling_def srt f)
qed

lemma intervalScheduling2_scheduled:
  assumes "distinct blocks" "blocks \<noteq> []" "depth (h (hd (sort_cmp (cmpStart h) blocks))) = 0"
  shows "scheduled blocks h (intervalScheduling2 blocks h)"
proof -
  obtain b0 rest where srt: "sort_cmp (cmpStart h) blocks = b0 # rest"
    using assms(2) by (cases "sort_cmp (cmpStart h) blocks") auto
  obtain h' q n where f: "fold schedStep2 rest (h, [b0], 0) = (h', q, n)"
    by (cases "fold schedStep2 rest (h, [b0], 0)")
  have d0: "depth (h b0) = 0" using assms(3) srt by simp
  have "\<exists>S. roomInv (set blocks) S (fold schedStep2 rest (h, [b0], 0)) \<and>
             depthOnly (set rest) h (fst (fold schedStep2 rest (h, [b0], 0)))"
  proof (rule sched_loop[where Aux = queueInv, OF _ _ assms(1) srt d0])
    show "\<And>x st. queueInv st \<Longrightarrow> roomStep x st (schedStep2 x st) \<and> queueInv (schedStep2 x st)"
      by (rule schedStep2_roomStep)
    show "queueInv (h, [b0], 0)" by (simp add: queueInv_def)
  qed
  then have "\<exists>S. roomInv (set blocks) S (h', q, n) \<and> depthOnly (set rest) h h'"
    by (simp add: f)
  then show ?thesis
    by (auto simp: scheduled_def intervalScheduling2_def srt f)
qed

subsection \<open>Consequences of the room invariant\<close>

lemma scheduled_no_shared_depth:
  assumes "scheduled blocks h (n, blocks', h')"
    and "a \<in> set blocks" "b \<in> set blocks" "a \<noteq> b" "conflict (h a) (h b)"
  shows "depth (h' a) \<noteq> depth (h' b)"
proof -
  from assms(1) obtain S reps where inv: "roomInv (set blocks) S (h', reps, n - 1)"
    and dO: "depthOnly (set (tl blocks')) h h'"
    by (auto simp: scheduled_def)
  from inv have "\<forall>a\<in>set blocks. \<forall>b\<in>set blocks.
      a \<noteq> b \<and> depth (h' a) = depth (h' b) \<longrightarrow> \<not> conflict (h' a) (h' b)"
    by (simp add: roomInv_def)
  moreover have "conflict (h' a) (h' b)" using assms(5) depthOnly_conflict[OF dO] by simp
  ultimately show ?thesis using assms(2,3,4) by blast
qed

lemma scheduled_depths:
  assumes "scheduled blocks h (n, blocks', h')"
  shows "(\<lambda>a. depth (h' a)) ` set blocks = {0..n - 1}" and "1 \<le> n"
proof -
  from assms obtain S reps where inv: "roomInv (set blocks) S (h', reps, n - 1)"
    by (auto simp: scheduled_def)
  from inv have img: "(\<lambda>r. depth (h' r)) ` set reps = {0..n - 1}"
    and sub: "set reps \<subseteq> set blocks"
    and rng: "\<forall>a\<in>set blocks. 0 \<le> depth (h' a) \<and> depth (h' a) \<le> n - 1"
    and n: "0 \<le> n - 1"
    by (simp_all add: roomInv_def)
  show "1 \<le> n" using n by simp
  have "(\<lambda>a. depth (h' a)) ` set blocks \<subseteq> {0..n - 1}" using rng by auto
  moreover have "{0..n - 1} \<subseteq> (\<lambda>a. depth (h' a)) ` set blocks"
    using img sub by (metis image_mono)
  ultimately show "(\<lambda>a. depth (h' a)) ` set blocks = {0..n - 1}" by (rule equalityI)
qed

lemma scheduled_active_le:
  assumes "scheduled blocks h (n, blocks', h')"
    and wf: "\<forall>a\<in>set blocks. startMin (h a) < endMin (h a)"
  shows "int (card (activeAt h (set blocks) t)) \<le> n"
proof -
  from assms(1) obtain S reps where inv: "roomInv (set blocks) S (h', reps, n - 1)"
    and dO: "depthOnly (set (tl blocks')) h h'"
    by (auto simp: scheduled_def)
  let ?A = "activeAt h (set blocks) t"
  have sub: "?A \<subseteq> set blocks" by (auto simp: activeAt_def)
  have "inj_on (\<lambda>a. depth (h' a)) ?A"
  proof (rule inj_onI)
    fix a b assume a: "a \<in> ?A" and b: "b \<in> ?A" and eq: "depth (h' a) = depth (h' b)"
    show "a = b"
    proof (rule ccontr)
      assume ne: "a \<noteq> b"
      have "conflict (h a) (h b)" using a b by (auto simp: activeAt_def conflict_def)
      from scheduled_no_shared_depth[OF assms(1) _ _ ne this] a b sub eq show False by blast
    qed
  qed
  then have "card ?A = card ((\<lambda>a. depth (h' a)) ` ?A)" by (simp add: card_image)
  also have "\<dots> \<le> card {0..n - 1}"
  proof (rule card_mono)
    show "(\<lambda>a. depth (h' a)) ` ?A \<subseteq> {0..n - 1}"
      using scheduled_depths(1)[OF assms(1)] sub by blast
  qed simp
  finally show ?thesis using scheduled_depths(2)[OF assms(1)] by simp
qed

lemma scheduled_active_ex:
  assumes "scheduled blocks h (n, blocks', h')"
    and wf: "\<forall>a\<in>set blocks. startMin (h a) < endMin (h a)"
  shows "\<exists>t. int (card (activeAt h (set blocks) t)) = n"
proof -
  from assms(1) obtain S reps where inv: "roomInv (set blocks) S (h', reps, n - 1)"
    and dO: "depthOnly (set (tl blocks')) h h'"
    by (auto simp: scheduled_def)
  have act: "activeAt h' D t = activeAt h D t" for D t
    by (simp add: activeAt_def depthOnly_fields[OF dO])
  from inv have "(\<forall>a\<in>set blocks. startMin (h' a) < endMin (h' a)) \<longrightarrow>
           (\<exists>t. n - 1 + 1 \<le> int (card (activeAt h' (set blocks) t)))"
    by (simp add: roomInv_def)
  with wf obtain t where "n \<le> int (card (activeAt h (set blocks) t))"
    by (auto simp: act depthOnly_fields[OF dO])
  with scheduled_active_le[OF assms, of t] show ?thesis by (intro exI[of _ t]) simp
qed

subsection \<open>The schedulers write nothing but the depth of the blocks after the first\<close>

lemma sort_cmp_Nil [simp]: "sort_cmp cmp [] = []"
  by (simp add: sort_cmp_def)

lemma setDepth_same: "setDepth x (depth (h x)) h = h"
  by (rule ext) (simp add: setDepth_def)

lemma schedStep_heap: "\<exists>d. fst (schedStep x st) = setDepth x d (fst st)"
proof -
  obtain h occ n where st: "st = (h, occ, n)" by (cases st)
  from schedStep_cases[of h x occ n] show ?thesis
    unfolding st setDepth_def by (elim disjE exE conjE) (simp_all, blast+)
qed

lemma schedStep2_heap: "\<exists>d. fst (schedStep2 x st) = setDepth x d (fst st)"
proof -
  obtain h q n where st: "st = (h, q, n)" by (cases st)
  show ?thesis
  proof (cases q)
    case Nil
    then have "fst (schedStep2 x st) = setDepth x (depth (h x)) h"
      by (simp add: schedStep2_def st setDepth_same)
    then show ?thesis unfolding st by auto
  next
    case (Cons p ps)
    then show ?thesis
      unfolding st by (auto simp: schedStep2_def setDepth_def Let_def)
  qed
qed

lemma fold_depthOnly:
  assumes step: "\<And>x st. \<exists>d. fst (stp x st) = setDepth x d (fst st)"
  shows "depthOnly X h0 (fst st) \<Longrightarrow> depthOnly (X \<union> set xs) h0 (fst (fold stp xs st))"
proof (induction xs arbitrary: X st)
  case Nil
  then show ?case by simp
next
  case (Cons x xs)
  from step[of x st] obtain d where d: "fst (stp x st) = setDepth x d (fst st)" ..
  have "depthOnly (insert x X) h0 (fst (stp x st))"
    unfolding d by (rule depthOnly_setDepth[OF Cons.prems])
  from Cons.IH[OF this] show ?case by simp
qed

lemma intervalScheduling_depthOnly:
  "intervalScheduling blocks h = (n, blocks', h')
   \<Longrightarrow> blocks' = sort_cmp (cmpStart h) blocks \<and> depthOnly (set (tl blocks')) h h'"
proof (cases "sort_cmp (cmpStart h) blocks")
  case Nil
  assume "intervalScheduling blocks h = (n, blocks', h')"
  with Nil show ?thesis by (auto simp: intervalScheduling_def depthOnly_refl)
next
  case (Cons b0 rest)
  assume r: "intervalScheduling blocks h = (n, blocks', h')"
  obtain h1 reps n1 where f: "fold schedStep rest (h, [b0], 0) = (h1, reps, n1)"
    by (cases "fold schedStep rest (h, [b0], 0)")
  have "depthOnly ({} \<union> set rest) h (fst (fold schedStep rest (h, [b0], 0)))"
    by (rule fold_depthOnly[OF schedStep_heap]) (simp add: depthOnly_refl)
  then have dO: "depthOnly (set rest) h h1" by (simp add: f)
  from r have "blocks' = b0 # rest" "h' = h1"
    by (simp_all add: intervalScheduling_def Cons f)
  with dO Cons show ?thesis by simp
qed

lemma intervalScheduling2_depthOnly:
  "intervalScheduling2 blocks h = (n, blocks', h')
   \<Longrightarrow> blocks' = sort_cmp (cmpStart h) blocks \<and> depthOnly (set (tl blocks')) h h'"
proof (cases "sort_cmp (cmpStart h) blocks")
  case Nil
  assume "intervalScheduling2 blocks h = (n, blocks', h')"
  with Nil show ?thesis by (auto simp: intervalScheduling2_def depthOnly_refl)
next
  case (Cons b0 rest)
  assume r: "intervalScheduling2 blocks h = (n, blocks', h')"
  obtain h1 reps n1 where f: "fold schedStep2 rest (h, [b0], 0) = (h1, reps, n1)"
    by (cases "fold schedStep2 rest (h, [b0], 0)")
  have "depthOnly ({} \<union> set rest) h (fst (fold schedStep2 rest (h, [b0], 0)))"
    by (rule fold_depthOnly[OF schedStep2_heap]) (simp add: depthOnly_refl)
  then have dO: "depthOnly (set rest) h h1" by (simp add: f)
  from r have "blocks' = b0 # rest" "h' = h1"
    by (simp_all add: intervalScheduling2_def Cons f)
  with dO Cons show ?thesis by simp
qed

lemma first_block_untouched:
  assumes "distinct blocks" "blocks \<noteq> []"
    and "blocks' = sort_cmp (cmpStart h) blocks" "depthOnly (set (tl blocks')) h h'"
  shows "h' (hd (sort_cmp (cmpStart h) blocks)) = h (hd (sort_cmp (cmpStart h) blocks))"
proof -
  obtain b0 rest where srt: "sort_cmp (cmpStart h) blocks = b0 # rest"
    using assms(2) by (cases "sort_cmp (cmpStart h) blocks") auto
  have "distinct (b0 # rest)" using assms(1) srt by (metis distinct_sort_cmp)
  then have "b0 \<notin> set rest" by simp
  with assms(3,4) srt show ?thesis by (simp add: depthOnly_same)
qed

section \<open>Minimal number of columns\<close>

text \<open>
  The outcome the scheduling claim asks for: no two conflicting blocks share a depth, the number
  of distinct depths equals the returned count, and the returned count is the largest number of
  blocks that run at the same instant.
\<close>

definition columnsMinimal :: "nat list \<Rightarrow> heap \<Rightarrow> int \<times> nat list \<times> heap \<Rightarrow> bool" where
  "columnsMinimal blocks h res \<longleftrightarrow>
     (case res of (n, blocks', h') \<Rightarrow>
        (\<forall>a\<in>set blocks. \<forall>b\<in>set blocks.
           a \<noteq> b \<and> conflict (h a) (h b) \<longrightarrow> depth (h' a) \<noteq> depth (h' b)) \<and>
        int (card ((\<lambda>a. depth (h' a)) ` set blocks)) = n \<and>
        (\<forall>t. int (card (activeAt h (set blocks) t)) \<le> n) \<and>
        (\<exists>t. int (card (activeAt h (set blocks) t)) = n))"

lemma scheduled_columnsMinimal:
  assumes "scheduled blocks h res" and "\<forall>a\<in>set blocks. startMin (h a) < endMin (h a)"
  shows "columnsMinimal blocks h res"
proof -
  obtain n blocks' h' where res: "res = (n, blocks', h')" by (cases res)
  note s = assms(1)[unfolded res]
  have "int (card ((\<lambda>a. depth (h' a)) ` set blocks)) = n"
    using scheduled_depths[OF s] by simp
  moreover have "\<forall>t. int (card (activeAt h (set blocks) t)) \<le> n"
    using scheduled_active_le[OF s assms(2)] by simp
  moreover have "\<exists>t. int (card (activeAt h (set blocks) t)) = n"
    using scheduled_active_ex[OF s assms(2)] by simp
  moreover have "\<forall>a\<in>set blocks. \<forall>b\<in>set blocks.
           a \<noteq> b \<and> conflict (h a) (h b) \<longrightarrow> depth (h' a) \<noteq> depth (h' b)"
    using scheduled_no_shared_depth[OF s] by blast
  ultimately show ?thesis unfolding columnsMinimal_def res prod.case by blast
qed

lemma columnsMinimal_empty: "columnsMinimal [] h (0, bs, h')"
  by (simp add: columnsMinimal_def activeAt_def)

text \<open>
  Claim C2, as stated for every block list, fails: two identical blocks of which the one that
  sorts first carries depth \<open>1\<close> from an earlier pass both end at depth \<open>1\<close>.
\<close>

definition staleDepthExample :: heap where
  "staleDepthExample = (\<lambda>a. mkBlock 0 1)
     (0 := (mkBlock 540 600)\<lparr>depth := 1\<rparr>, 1 := mkBlock 540 600)"

theorem schedulers_share_depth_on_stale_input:
  "conflict (staleDepthExample 0) (staleDepthExample 1) \<and>
   depth (snd (snd (intervalScheduling2 [0, 1] staleDepthExample)) 0) =
   depth (snd (snd (intervalScheduling2 [0, 1] staleDepthExample)) 1) \<and>
   depth (snd (snd (intervalScheduling [0, 1] staleDepthExample)) 0) =
   depth (snd (snd (intervalScheduling [0, 1] staleDepthExample)) 1)"
  by (simp add: staleDepthExample_def mkBlock_def conflict_def intervalScheduling2_def
      intervalScheduling_def sort_cmp_def cmpStart_def duration_def schedStep2_def schedStep_def
      cmpEnd_def Let_def)

text \<open>
  Claim C2, amended: for every list of distinct blocks that enter with depth \<open>0\<close> and with
  \<open>startMin < endMin\<close>, each of the two schedulers assigns the depths so that no two
  conflicting blocks share a depth, and the number of distinct depths used equals the returned
  column count, which is the maximum number of blocks running at one instant.
\<close>

theorem schedulers_minimal_columns:
  assumes "distinct blocks"
    and "\<forall>a\<in>set blocks. depth (h a) = 0"
    and "\<forall>a\<in>set blocks. startMin (h a) < endMin (h a)"
  shows "columnsMinimal blocks h (intervalScheduling blocks h) \<and>
         columnsMinimal blocks h (intervalScheduling2 blocks h)"
proof (cases "blocks = []")
  case True
  then show ?thesis
    by (simp add: intervalScheduling_def intervalScheduling2_def columnsMinimal_empty)
next
  case False
  have "hd (sort_cmp (cmpStart h) blocks) \<in> set blocks"
    using False by (metis hd_in_set set_sort_cmp sort_cmp_Nil_iff)
  with assms(2) have d0: "depth (h (hd (sort_cmp (cmpStart h) blocks))) = 0" by blast
  show ?thesis
    using scheduled_columnsMinimal[OF intervalScheduling_scheduled[of blocks h, OF assms(1) False d0] assms(3)]
      scheduled_columnsMinimal[OF intervalScheduling2_scheduled[of blocks h, OF assms(1) False d0] assms(3)]
    by simp
qed

definition threeBlocks :: heap where
  "threeBlocks = (\<lambda>a. mkBlock 0 1)
     (0 := mkBlock 540 660, 1 := mkBlock 540 600, 2 := mkBlock 600 660)"

theorem schedulers_minimal_columns_witness:
  "distinct [0, 1, 2::nat] \<and>
   list_all (\<lambda>a. depth (threeBlocks a) = 0) [0, 1, 2] \<and>
   list_all (\<lambda>a. startMin (threeBlocks a) < endMin (threeBlocks a)) [0, 1, 2] \<and>
   columnsMinimal [0, 1, 2] threeBlocks (intervalScheduling [0, 1, 2] threeBlocks) \<and>
   columnsMinimal [0, 1, 2] threeBlocks (intervalScheduling2 [0, 1, 2] threeBlocks)"
  using schedulers_minimal_columns[of "[0, 1, 2]" threeBlocks]
  by (simp add: threeBlocks_def mkBlock_def)

section \<open>The first block keeps its depth\<close>

definition noSharedDepth :: "nat list \<Rightarrow> heap \<Rightarrow> heap \<Rightarrow> bool" where
  "noSharedDepth blocks h h' \<longleftrightarrow>
     (\<forall>a\<in>set blocks. \<forall>b\<in>set blocks.
        a \<noteq> b \<and> conflict (h a) (h b) \<longrightarrow> depth (h' a) \<noteq> depth (h' b))"

definition firstBlock :: "nat list \<Rightarrow> heap \<Rightarrow> nat" where
  "firstBlock blocks h = hd (sort_cmp (cmpStart h) blocks)"

text \<open>
  Claim C9.  For every non-empty list of distinct blocks, both schedulers leave the block that
  sorts first exactly as it was, so it keeps the depth it carried on entry.  When every block
  enters with depth \<open>0\<close>, conflicting blocks end at distinct depths; the stale input above,
  where the first block enters with depth \<open>1\<close>, shows that the precondition cannot be dropped.
\<close>

theorem first_block_keeps_depth:
  assumes "distinct blocks" "blocks \<noteq> []"
  shows "depth (snd (snd (intervalScheduling blocks h)) (firstBlock blocks h)) =
           depth (h (firstBlock blocks h)) \<and>
         depth (snd (snd (intervalScheduling2 blocks h)) (firstBlock blocks h)) =
           depth (h (firstBlock blocks h)) \<and>
         ((\<forall>a\<in>set blocks. depth (h a) = 0) \<longrightarrow>
            noSharedDepth blocks h (snd (snd (intervalScheduling blocks h))) \<and>
            noSharedDepth blocks h (snd (snd (intervalScheduling2 blocks h)))) \<and>
         \<not> noSharedDepth [0, 1] staleDepthExample
             (snd (snd (intervalScheduling [0, 1] staleDepthExample))) \<and>
         \<not> noSharedDepth [0, 1] staleDepthExample
             (snd (snd (intervalScheduling2 [0, 1] staleDepthExample)))"
proof -
  obtain n1 bs1 h1 where r1: "intervalScheduling blocks h = (n1, bs1, h1)"
    by (cases "intervalScheduling blocks h")
  obtain n2 bs2 h2 where r2: "intervalScheduling2 blocks h = (n2, bs2, h2)"
    by (cases "intervalScheduling2 blocks h")
  have k1: "h1 (firstBlock blocks h) = h (firstBlock blocks h)"
    unfolding firstBlock_def using intervalScheduling_depthOnly[OF r1]
    by (intro first_block_untouched[OF assms]) auto
  have k2: "h2 (firstBlock blocks h) = h (firstBlock blocks h)"
    unfolding firstBlock_def using intervalScheduling2_depthOnly[OF r2]
    by (intro first_block_untouched[OF assms]) auto
  have g: "noSharedDepth blocks h h1 \<and> noSharedDepth blocks h h2"
    if z: "\<forall>a\<in>set blocks. depth (h a) = 0"
  proof -
    have "hd (sort_cmp (cmpStart h) blocks) \<in> set blocks"
      using assms(2) by (metis hd_in_set set_sort_cmp sort_cmp_Nil_iff)
    with z have d0: "depth (h (hd (sort_cmp (cmpStart h) blocks))) = 0" by blast
    have s1: "scheduled blocks h (n1, bs1, h1)"
      using intervalScheduling_scheduled[of blocks h, OF assms d0] r1 by simp
    have s2: "scheduled blocks h (n2, bs2, h2)"
      using intervalScheduling2_scheduled[of blocks h, OF assms d0] r2 by simp
    show ?thesis
      unfolding noSharedDepth_def
      using scheduled_no_shared_depth[OF s1] scheduled_no_shared_depth[OF s2] by blast
  qed
  have c: "\<not> noSharedDepth [0, 1] staleDepthExample
             (snd (snd (intervalScheduling [0, 1] staleDepthExample))) \<and>
         \<not> noSharedDepth [0, 1] staleDepthExample
             (snd (snd (intervalScheduling2 [0, 1] staleDepthExample)))"
    by (simp add: noSharedDepth_def staleDepthExample_def mkBlock_def conflict_def
        intervalScheduling2_def intervalScheduling_def sort_cmp_def cmpStart_def duration_def
        schedStep2_def schedStep_def cmpEnd_def Let_def)
  show ?thesis using k1 k2 g c by (simp add: r1 r2)
qed

theorem first_block_keeps_depth_witness:
  "distinct [0, 1::nat] \<and> [0, 1::nat] \<noteq> [] \<and> firstBlock [0, 1] staleDepthExample = 0 \<and>
   depth (snd (snd (intervalScheduling [0, 1] staleDepthExample)) 0) = 1 \<and>
   depth (snd (snd (intervalScheduling2 [0, 1] staleDepthExample)) 0) = 1"
proof -
  have f: "firstBlock [0, 1] staleDepthExample = 0"
    by (simp add: firstBlock_def sort_cmp_def cmpStart_def duration_def staleDepthExample_def
        mkBlock_def)
  have d: "depth (staleDepthExample 0) = 1" by (simp add: staleDepthExample_def mkBlock_def)
  from first_block_keeps_depth[of "[0, 1]" staleDepthExample] f d show ?thesis by simp
qed

section \<open>The two schedulers open the same number of rooms\<close>

text \<open>The end times of the representatives, as a multiset.\<close>

definition repEnds :: "heap \<times> nat list \<times> int \<Rightarrow> int multiset" where
  "repEnds st = (case st of (h, reps, n) \<Rightarrow> image_mset (\<lambda>r. endMin (h r)) (mset reps))"

text \<open>
  Two scheduler states are alike after a block with start \<open>S\<close> when they have the same number of
  rooms and the same end times among the rooms that still run after \<open>S\<close>.
\<close>

definition alike :: "int \<Rightarrow> heap \<times> nat list \<times> int \<Rightarrow> heap \<times> nat list \<times> int \<Rightarrow> bool" where
  "alike S st1 st2 \<longleftrightarrow>
     snd (snd st1) = snd (snd st2) \<and>
     size (repEnds st1) = size (repEnds st2) \<and>
     filter_mset (\<lambda>e. S < e) (repEnds st1) = filter_mset (\<lambda>e. S < e) (repEnds st2)"

text \<open>What a room step does to the end times.\<close>

lemma roomStep_ends:
  assumes "roomStep x st st'"
  shows "(size (filter_mset (\<lambda>e. startMin (fst st x) < e) (repEnds st)) = size (repEnds st) \<and>
          repEnds st' = add_mset (endMin (fst st x)) (repEnds st) \<and>
          snd (snd st') = snd (snd st) + 1)
       \<or> (size (filter_mset (\<lambda>e. startMin (fst st x) < e) (repEnds st)) < size (repEnds st) \<and>
          (\<exists>e. e \<in># repEnds st \<and> e \<le> startMin (fst st x) \<and>
               repEnds st' = add_mset (endMin (fst st x)) (repEnds st - {#e#})) \<and>
          snd (snd st') = snd (snd st))"
proof -
  obtain h reps n where st: "st = (h, reps, n)" by (cases st)
  obtain h' reps' n' where st': "st' = (h', reps', n')" by (cases st')
  let ?f = "\<lambda>r. endMin (h r)"
  let ?t = "startMin (h x)"
  from assms consider
    (new) "\<forall>r\<in>set reps. ?t < endMin (h r)" "h' = setDepth x (n + 1) h"
      "mset reps' = add_mset x (mset reps)" "n' = n + 1"
  | (reuse) r where "r \<in> set reps" "endMin (h r) \<le> ?t"
      "h' = setDepth x (depth (h r)) h" "mset reps' = add_mset x (mset reps - {#r#})" "n' = n"
    unfolding roomStep_def st st' by auto
  then show ?thesis
  proof cases
    case new
    have "filter_mset (\<lambda>e. ?t < e) (image_mset ?f (mset reps)) = image_mset ?f (mset reps)"
      using new(1) by (auto simp: filter_mset_eq_conv)
    moreover have "image_mset (\<lambda>r. endMin (h' r)) (mset reps') =
        add_mset (endMin (h x)) (image_mset ?f (mset reps))"
      by (simp add: new)
    ultimately show ?thesis
      unfolding st st' repEnds_def using new(4) by simp
  next
    case reuse
    have mem: "?f r \<in># image_mset ?f (mset reps)" using reuse(1) by simp
    have "\<not> (?t < ?f r)" using reuse(2) by simp
    then have "filter_mset (\<lambda>e. ?t < e) (image_mset ?f (mset reps)) \<noteq> image_mset ?f (mset reps)"
      using mem by (metis (mono_tags, lifting) filter_mset_eq_conv)
    moreover have "filter_mset (\<lambda>e. ?t < e) (image_mset ?f (mset reps)) \<subseteq># image_mset ?f (mset reps)"
      by simp
    ultimately have lt: "size (filter_mset (\<lambda>e. ?t < e) (image_mset ?f (mset reps)))
        < size (image_mset ?f (mset reps))"
      by (metis mset_subset_size subset_mset.less_le)
    have "image_mset ?f (mset reps - {#r#}) = image_mset ?f (mset reps) - {#?f r#}"
      using reuse(1) by (simp add: image_mset_Diff)
    then have "image_mset (\<lambda>r. endMin (h' r)) (mset reps') =
        add_mset (endMin (h x)) (image_mset ?f (mset reps) - {#?f r#})"
      by (simp add: reuse)
    with lt mem reuse(2,5) show ?thesis
      unfolding st st' repEnds_def by auto
  qed
qed

lemma filter_after:
  assumes "S \<le> t" and "filter_mset (\<lambda>e. S < e) A = filter_mset (\<lambda>e. S < e) B"
  shows "filter_mset (\<lambda>e::int. t < e) A = filter_mset (\<lambda>e. t < e) B"
proof -
  have "filter_mset (\<lambda>e. t < e) M = filter_mset (\<lambda>e. t < e) (filter_mset (\<lambda>e. S < e) M)"
    for M :: "int multiset"
    using assms(1) by (auto simp: filter_filter_mset intro!: filter_mset_cong)
  with assms(2) show ?thesis by metis
qed

lemma filter_drop_old:
  assumes "e \<le> t"
  shows "filter_mset (\<lambda>e::int. t < e) (A - {#e#}) = filter_mset (\<lambda>e. t < e) A"
proof (cases "e \<in># A")
  case True
  then obtain B where A: "A = add_mset e B" by (metis insert_DiffM)
  show ?thesis unfolding A using assms by simp
next
  case False
  then show ?thesis by simp
qed

lemma alike_step:
  assumes al: "alike S st1 st2"
    and r1: "roomStep x st1 st1'" and r2: "roomStep x st2 st2'"
    and S: "S \<le> startMin (fst st1 x)"
    and same: "startMin (fst st1 x) = startMin (fst st2 x)" "endMin (fst st1 x) = endMin (fst st2 x)"
  shows "alike (startMin (fst st1 x)) st1' st2'"
proof -
  let ?t = "startMin (fst st1 x)"
  let ?e = "endMin (fst st1 x)"
  from al have n: "snd (snd st1) = snd (snd st2)"
    and sz: "size (repEnds st1) = size (repEnds st2)"
    and fl: "filter_mset (\<lambda>e. S < e) (repEnds st1) = filter_mset (\<lambda>e. S < e) (repEnds st2)"
    by (simp_all add: alike_def)
  have ft: "filter_mset (\<lambda>e. ?t < e) (repEnds st1) = filter_mset (\<lambda>e. ?t < e) (repEnds st2)"
    by (rule filter_after[OF S fl])
  from roomStep_ends[OF r1] roomStep_ends[OF r2]
  consider
    (new) "repEnds st1' = add_mset ?e (repEnds st1)" "snd (snd st1') = snd (snd st1) + 1"
          "repEnds st2' = add_mset ?e (repEnds st2)" "snd (snd st2') = snd (snd st2) + 1"
  | (reuse) e1 e2 where "e1 \<in># repEnds st1" "e1 \<le> ?t"
          "repEnds st1' = add_mset ?e (repEnds st1 - {#e1#})" "snd (snd st1') = snd (snd st1)"
          "e2 \<in># repEnds st2" "e2 \<le> ?t"
          "repEnds st2' = add_mset ?e (repEnds st2 - {#e2#})" "snd (snd st2') = snd (snd st2)"
  proof (elim disjE conjE exE)
    fix e1 e2
    assume "size (filter_mset (\<lambda>e. startMin (fst st1 x) < e) (repEnds st1)) = size (repEnds st1)"
      and "size (filter_mset (\<lambda>e. startMin (fst st2 x) < e) (repEnds st2)) < size (repEnds st2)"
    with ft sz same show thesis by simp
  next
    fix e1 e2
    assume "size (filter_mset (\<lambda>e. startMin (fst st1 x) < e) (repEnds st1)) < size (repEnds st1)"
      and "size (filter_mset (\<lambda>e. startMin (fst st2 x) < e) (repEnds st2)) = size (repEnds st2)"
    with ft sz same show thesis by simp
  next
    assume "repEnds st1' = add_mset (endMin (fst st1 x)) (repEnds st1)"
      "snd (snd st1') = snd (snd st1) + 1"
      "repEnds st2' = add_mset (endMin (fst st2 x)) (repEnds st2)"
      "snd (snd st2') = snd (snd st2) + 1"
    with same show thesis by (intro new) simp_all
  next
    fix e1 e2
    assume "e1 \<in># repEnds st1" "e1 \<le> startMin (fst st1 x)"
      "repEnds st1' = add_mset (endMin (fst st1 x)) (repEnds st1 - {#e1#})"
      "snd (snd st1') = snd (snd st1)"
      "e2 \<in># repEnds st2" "e2 \<le> startMin (fst st2 x)"
      "repEnds st2' = add_mset (endMin (fst st2 x)) (repEnds st2 - {#e2#})"
      "snd (snd st2') = snd (snd st2)"
    with same show thesis by (intro reuse[of e1 e2]) simp_all
  qed
  then show ?thesis
  proof cases
    case new
    then show ?thesis unfolding alike_def using n sz ft by simp
  next
    case reuse
    have f1: "filter_mset (\<lambda>e. ?t < e) (repEnds st1 - {#e1#}) = filter_mset (\<lambda>e. ?t < e) (repEnds st1)"
      using reuse(2) by (rule filter_drop_old)
    have f2: "filter_mset (\<lambda>e. ?t < e) (repEnds st2 - {#e2#}) = filter_mset (\<lambda>e. ?t < e) (repEnds st2)"
      using reuse(6) by (rule filter_drop_old)
    have s1: "size (repEnds st1 - {#e1#}) = size (repEnds st1) - 1"
      using reuse(1) by (simp add: size_Diff_singleton)
    have s2: "size (repEnds st2 - {#e2#}) = size (repEnds st2) - 1"
      using reuse(5) by (simp add: size_Diff_singleton)
    show ?thesis unfolding alike_def using n sz ft f1 f2 s1 s2 reuse(3,4,7,8) by simp
  qed
qed


lemma fold_alike:
  assumes step1: "\<And>x st. Aux1 st \<Longrightarrow> roomStep x st (stp1 x st) \<and> Aux1 (stp1 x st)"
    and step2: "\<And>x st. Aux2 st \<Longrightarrow> roomStep x st (stp2 x st) \<and> Aux2 (stp2 x st)"
  shows "alike S st1 st2 \<Longrightarrow> Aux1 st1 \<Longrightarrow> Aux2 st2
    \<Longrightarrow> depthOnly X1 h0 (fst st1) \<Longrightarrow> depthOnly X2 h0 (fst st2)
    \<Longrightarrow> sorted_wrt (\<lambda>a b. startMin (h0 a) \<le> startMin (h0 b)) xs
    \<Longrightarrow> \<forall>x\<in>set xs. S \<le> startMin (h0 x)
    \<Longrightarrow> snd (snd (fold stp1 xs st1)) = snd (snd (fold stp2 xs st2))"
proof (induction xs arbitrary: S st1 st2 X1 X2)
  case Nil
  then show ?case by (simp add: alike_def)
next
  case (Cons x xs)
  let ?s1 = "stp1 x st1" and ?s2 = "stp2 x st2"
  from step1[OF Cons.prems(2)] have r1: "roomStep x st1 ?s1" and a1: "Aux1 ?s1" by simp_all
  from step2[OF Cons.prems(3)] have r2: "roomStep x st2 ?s2" and a2: "Aux2 ?s2" by simp_all
  have f1: "startMin (fst st1 x) = startMin (h0 x)" "endMin (fst st1 x) = endMin (h0 x)"
    using Cons.prems(4) by (simp_all add: depthOnly_fields)
  have f2: "startMin (fst st2 x) = startMin (h0 x)" "endMin (fst st2 x) = endMin (h0 x)"
    using Cons.prems(5) by (simp_all add: depthOnly_fields)
  have "S \<le> startMin (fst st1 x)" using Cons.prems(7) f1 by simp
  from alike_step[OF Cons.prems(1) r1 r2 this] f1 f2
  have al: "alike (startMin (h0 x)) ?s1 ?s2" by simp
  obtain d1 where d1: "fst ?s1 = setDepth x d1 (fst st1)"
    using roomStep_setDepth[of x "fst st1" "fst (snd st1)" "snd (snd st1)"
        "fst ?s1" "fst (snd ?s1)" "snd (snd ?s1)"] r1 by auto
  obtain d2 where d2: "fst ?s2 = setDepth x d2 (fst st2)"
    using roomStep_setDepth[of x "fst st2" "fst (snd st2)" "snd (snd st2)"
        "fst ?s2" "fst (snd ?s2)" "snd (snd ?s2)"] r2 by auto
  have o1: "depthOnly (insert x X1) h0 (fst ?s1)"
    unfolding d1 by (rule depthOnly_setDepth[OF Cons.prems(4)])
  have o2: "depthOnly (insert x X2) h0 (fst ?s2)"
    unfolding d2 by (rule depthOnly_setDepth[OF Cons.prems(5)])
  have "snd (snd (fold stp1 xs ?s1)) = snd (snd (fold stp2 xs ?s2))"
  proof (rule Cons.IH[OF al a1 a2 o1 o2])
    show "sorted_wrt (\<lambda>a b. startMin (h0 a) \<le> startMin (h0 b)) xs" using Cons.prems(6) by simp
    show "\<forall>y\<in>set xs. startMin (h0 x) \<le> startMin (h0 y)" using Cons.prems(6) by simp
  qed
  then show ?case by simp
qed

text \<open>
  Claim C3.  For every block list and every store, the quadratic scheduler and the scheduler
  with the priority queue return the same number of columns.
\<close>

theorem schedulers_same_column_count:
  "fst (intervalScheduling blocks h) = fst (intervalScheduling2 blocks h)"
proof (cases "sort_cmp (cmpStart h) blocks")
  case Nil
  then show ?thesis by (simp add: intervalScheduling_def intervalScheduling2_def)
next
  case (Cons b0 rest)
  have sorted: "sorted_wrt (\<lambda>a b. startMin (h a) \<le> startMin (h b)) (b0 # rest)"
    using sorted_cmpStart[of h blocks] Cons by simp
  have "snd (snd (fold schedStep rest (h, [b0], 0))) = snd (snd (fold schedStep2 rest (h, [b0], 0)))"
  proof (rule fold_alike[where ?Aux1.0 = "\<lambda>_. True" and ?Aux2.0 = queueInv
        and S = "startMin (h b0)" and ?X1.0 = "{}" and ?X2.0 = "{}" and ?h0.0 = h])
    show "\<And>x st. True \<Longrightarrow> roomStep x st (schedStep x st) \<and> True"
      by (simp add: schedStep_roomStep)
    show "\<And>x st. queueInv st \<Longrightarrow> roomStep x st (schedStep2 x st) \<and> queueInv (schedStep2 x st)"
      by (rule schedStep2_roomStep)
    show "alike (startMin (h b0)) (h, [b0], 0) (h, [b0], 0)" by (simp add: alike_def)
    show "queueInv (h, [b0], 0)" by (simp add: queueInv_def)
    show "depthOnly {} h (fst (h, [b0], 0::int))" by (simp add: depthOnly_refl)
    show "depthOnly {} h (fst (h, [b0], 0::int))" by (simp add: depthOnly_refl)
    show "sorted_wrt (\<lambda>a b. startMin (h a) \<le> startMin (h b)) rest" using sorted by simp
    show "\<forall>x\<in>set rest. startMin (h b0) \<le> startMin (h x)" using sorted by simp
  qed simp
  then show ?thesis
    by (cases "fold schedStep rest (h, [b0], 0)"; cases "fold schedStep2 rest (h, [b0], 0)")
       (simp add: intervalScheduling_def intervalScheduling2_def Cons)
qed

section \<open>The conflict graph that \<open>constructAdjList\<close> builds\<close>

definition pushNeighbors :: "block \<Rightarrow> nat list \<Rightarrow> block" where
  "pushNeighbors b ns = b\<lparr>neighbors := neighbors b @ ns\<rparr>"

lemma pushNeighbors_Nil [simp]: "pushNeighbors b [] = b"
  by (simp add: pushNeighbors_def)

lemma pushNeighbors_append [simp]:
  "pushNeighbors (pushNeighbors b ms) ns = pushNeighbors b (ms @ ns)"
  by (simp add: pushNeighbors_def)

lemma pushNeighbors_fields [simp]:
  "startMin (pushNeighbors b ns) = startMin b" "endMin (pushNeighbors b ns) = endMin b"
  "depth (pushNeighbors b ns) = depth b" "pathDepth (pushNeighbors b ns) = pathDepth b"
  "left (pushNeighbors b ns) = left b" "width (pushNeighbors b ns) = width b"
  "isFixed (pushNeighbors b ns) = isFixed b" "visited (pushNeighbors b ns) = visited b"
  "idx (pushNeighbors b ns) = idx b" "neighbors (pushNeighbors b ns) = neighbors b @ ns"
  by (simp_all add: pushNeighbors_def)

lemma conflict_pushNeighbors [simp]:
  "conflict (pushNeighbors a ms) (pushNeighbors b ns) = conflict a b"
  by (simp add: conflict_def)

lemma addEdge_apply:
  assumes "bi \<noteq> bj"
  shows "addEdge bi bj h a =
     pushNeighbors (h a) (if conflict (h bi) (h bj)
        then (if a = bi then [bj] else if a = bj then [bi] else []) else [])"
  using assms by (simp add: addEdge_def Let_def pushNeighbors_def)

lemma fold_addEdge_apply:
  assumes "bi \<notin> set bs" "distinct bs"
  shows "fold (addEdge bi) bs h a =
     pushNeighbors (h a)
       (if a = bi then filter (\<lambda>b. conflict (h bi) (h b)) bs
        else if a \<in> set bs \<and> conflict (h bi) (h a) then [bi] else [])"
  using assms
proof (induction bs arbitrary: h)
  case Nil
  then show ?case by simp
next
  case (Cons bj bs)
  let ?h1 = "addEdge bi bj h"
  have ne: "bi \<noteq> bj" using Cons.prems by auto
  have cf: "conflict (?h1 x) (?h1 y) = conflict (h x) (h y)" for x y
    by (simp add: addEdge_apply[OF ne])
  have IH: "fold (addEdge bi) bs ?h1 a =
     pushNeighbors (?h1 a)
       (if a = bi then filter (\<lambda>b. conflict (h bi) (h b)) bs
        else if a \<in> set bs \<and> conflict (h bi) (h a) then [bi] else [])"
    using Cons.IH[of ?h1] Cons.prems by (simp add: cf)
  show ?case
  proof (cases "a = bi")
    case True
    then show ?thesis using IH ne by (simp add: addEdge_apply[OF ne])
  next
    case False
    then show ?thesis using IH ne Cons.prems by (auto simp: addEdge_apply[OF ne])
  qed
qed

lemma constructAdjList_apply:
  assumes "distinct blocks"
  shows "constructAdjList blocks h a =
     pushNeighbors (h a)
       (if a \<in> set blocks then filter (\<lambda>b. b \<noteq> a \<and> conflict (h a) (h b)) blocks else [])"
  using assms
proof (induction blocks arbitrary: h)
  case Nil
  then show ?case by simp
next
  case (Cons bi bs)
  let ?h1 = "fold (addEdge bi) bs h"
  have bi: "bi \<notin> set bs" and d: "distinct bs" using Cons.prems by auto
  have h1: "?h1 x = pushNeighbors (h x)
       (if x = bi then filter (\<lambda>b. conflict (h bi) (h b)) bs
        else if x \<in> set bs \<and> conflict (h bi) (h x) then [bi] else [])" for x
    by (rule fold_addEdge_apply[OF bi d])
  have cf: "conflict (?h1 x) (?h1 y) = conflict (h x) (h y)" for x y
    by (simp only: h1 conflict_pushNeighbors)
  have IH: "constructAdjList bs ?h1 a =
     pushNeighbors (?h1 a)
       (if a \<in> set bs then filter (\<lambda>b. b \<noteq> a \<and> conflict (h a) (h b)) bs else [])"
    using Cons.IH[OF d, of ?h1] by (simp only: cf)
  have sym: "conflict (h bi) (h a) = conflict (h a) (h bi)"
    by (auto simp: conflict_def)
  have flt: "filter (\<lambda>b. conflict (h bi) (h b)) bs = filter (\<lambda>b. b \<noteq> bi \<and> conflict (h bi) (h b)) bs"
    using bi by (auto intro: filter_cong)
  show ?case
  proof (cases "a = bi")
    case True
    then show ?thesis using IH bi by (simp add: h1 flt)
  next
    case False
    then show ?thesis using IH by (simp add: h1 sym)
  qed
qed

section \<open>The search that sets \<open>pathDepth\<close>\<close>

text \<open>The blocks of the weekday that a search has not reached yet.\<close>

definition unvisited :: "nat set \<Rightarrow> heap \<Rightarrow> nat set" where
  "unvisited U h = {a \<in> U. \<not> visited (h a)}"

text \<open>Every neighbor of a block of the weekday is a block of the weekday.\<close>

definition closedIn :: "nat set \<Rightarrow> heap \<Rightarrow> bool" where
  "closedIn U h \<longleftrightarrow> (\<forall>a\<in>U. set (neighbors (h a)) \<subseteq> U)"

text \<open>
  What \<^verbatim>\<open>depthFirstSearchRec\<close> may change: \<open>visited\<close> and \<open>pathDepth\<close> of blocks of the weekday
  that were not visited before.
\<close>

definition dfsFrame :: "nat set \<Rightarrow> heap \<Rightarrow> heap \<Rightarrow> bool" where
  "dfsFrame U h h' \<longleftrightarrow>
     (\<forall>a. h' a = (h a)\<lparr>visited := visited (h' a), pathDepth := pathDepth (h' a)\<rparr> \<and>
          (visited (h a) \<or> a \<notin> U \<longrightarrow> h' a = h a))"

text \<open>
  The invariant of the search with path depth \<open>m\<close>; the blocks in \<open>A\<close> are the ones whose
  loop over the neighbors is still running.
\<close>

definition dfsInv :: "nat set \<Rightarrow> nat set \<Rightarrow> int \<Rightarrow> heap \<Rightarrow> bool" where
  "dfsInv U A m h \<longleftrightarrow>
     (\<forall>u\<in>U. visited (h u) \<longrightarrow> m \<le> pathDepth (h u) \<and> depth (h u) + 1 \<le> pathDepth (h u)) \<and>
     (\<forall>b\<in>U. visited (h b) \<longrightarrow> b \<notin> A \<longrightarrow>
        (\<forall>a\<in>set (neighbors (h b)). depth (h a) < depth (h b) \<longrightarrow>
           visited (h a) \<and> pathDepth (h b) \<le> pathDepth (h a)))"

lemma dfsFrame_refl: "dfsFrame U h h"
  by (simp add: dfsFrame_def)

lemma dfsFrame_same: "dfsFrame U h h' \<Longrightarrow> visited (h a) \<or> a \<notin> U \<Longrightarrow> h' a = h a"
  unfolding dfsFrame_def by blast

lemma dfsFrame_fields:
  assumes "dfsFrame U h h'"
  shows "startMin (h' a) = startMin (h a)" "endMin (h' a) = endMin (h a)"
    "neighbors (h' a) = neighbors (h a)" "depth (h' a) = depth (h a)"
    "isFixed (h' a) = isFixed (h a)"
    "left (h' a) = left (h a)" "width (h' a) = width (h a)" "idx (h' a) = idx (h a)"
proof -
  from assms have a: "h' a = (h a)\<lparr>visited := visited (h' a), pathDepth := pathDepth (h' a)\<rparr>"
    unfolding dfsFrame_def by blast
  show "startMin (h' a) = startMin (h a)" by (subst a) simp
  show "endMin (h' a) = endMin (h a)" by (subst a) simp
  show "neighbors (h' a) = neighbors (h a)" by (subst a) simp
  show "depth (h' a) = depth (h a)" by (subst a) simp
  show "isFixed (h' a) = isFixed (h a)" by (subst a) simp
  show "left (h' a) = left (h a)" by (subst a) simp
  show "width (h' a) = width (h a)" by (subst a) simp
  show "idx (h' a) = idx (h a)" by (subst a) simp
qed

lemma dfsFrame_visited: "dfsFrame U h h' \<Longrightarrow> visited (h a) \<Longrightarrow> visited (h' a)"
  by (simp add: dfsFrame_same)

lemma dfsFrame_trans:
  assumes "dfsFrame U h h1" "dfsFrame U h1 h2"
  shows "dfsFrame U h h2"
  unfolding dfsFrame_def
proof (intro allI conjI impI)
  fix a
  have 1: "h1 a = (h a)\<lparr>visited := visited (h1 a), pathDepth := pathDepth (h1 a)\<rparr>"
    using assms(1) unfolding dfsFrame_def by blast
  have 2: "h2 a = (h1 a)\<lparr>visited := visited (h2 a), pathDepth := pathDepth (h2 a)\<rparr>"
    using assms(2) unfolding dfsFrame_def by blast
  show "h2 a = (h a)\<lparr>visited := visited (h2 a), pathDepth := pathDepth (h2 a)\<rparr>"
    by (subst 2, subst 1) simp
  assume v: "visited (h a) \<or> a \<notin> U"
  then have e: "h1 a = h a" using assms(1) by (simp add: dfsFrame_same)
  with v have "visited (h1 a) \<or> a \<notin> U" by simp
  then have "h2 a = h1 a" using assms(2) by (simp add: dfsFrame_same)
  with e show "h2 a = h a" by simp
qed

lemma dfsFrame_closedIn: "dfsFrame U h h' \<Longrightarrow> closedIn U h \<Longrightarrow> closedIn U h'"
  by (simp add: closedIn_def dfsFrame_fields)

lemma dfsFrame_unvisited: "dfsFrame U h h' \<Longrightarrow> unvisited U h' \<subseteq> unvisited U h"
  by (auto simp: unvisited_def dest: dfsFrame_visited)

lemma card_unvisited_mono:
  assumes "finite U" "dfsFrame U h h'" "card (unvisited U h) \<le> n"
  shows "card (unvisited U h') \<le> n"
proof -
  have "finite (unvisited U h)" using assms(1) by (simp add: unvisited_def)
  then have "card (unvisited U h') \<le> card (unvisited U h)"
    by (rule card_mono) (rule dfsFrame_unvisited[OF assms(2)])
  with assms(3) show ?thesis by simp
qed

lemma dfsInv_weaken: "dfsInv U A m h \<Longrightarrow> m' \<le> m \<Longrightarrow> dfsInv U A m' h"
  by (fastforce simp: dfsInv_def)

text \<open>The loop over the neighbors, given that the nested calls behave.\<close>

lemma dfs_loop:
  assumes IH: "\<And>s h. \<lbrakk>closedIn U h; s \<in> U; \<not> visited (h s); card (unvisited U h) \<le> n;
                  dfsInv U A m h; depth (h s) + 1 \<le> m\<rbrakk>
           \<Longrightarrow> \<exists>h'. depthFirstSearchRec n s m h = Some h' \<and> dfsFrame U h h' \<and>
                    visited (h' s) \<and> dfsInv U A m h'"
    and fin: "finite U"
  shows "\<lbrakk>closedIn U h; set ns \<subseteq> U; card (unvisited U h) \<le> n; dfsInv U A m h; sd + 1 \<le> m\<rbrakk>
    \<Longrightarrow> \<exists>h'. foldo (\<lambda>adj h'. if \<not> visited (h' adj) \<and> depth (h' adj) < sd
                           then depthFirstSearchRec n adj m h' else Some h') ns h = Some h' \<and>
             dfsFrame U h h' \<and> dfsInv U A m h' \<and>
             (\<forall>a\<in>set ns. depth (h' a) < sd \<longrightarrow> visited (h' a))"
proof (induction ns arbitrary: h)
  case Nil
  then show ?case by (simp add: dfsFrame_refl)
next
  case (Cons adj ns)
  let ?body = "\<lambda>adj h'. if \<not> visited (h' adj) \<and> depth (h' adj) < sd
                           then depthFirstSearchRec n adj m h' else Some h'"
  have "\<exists>h1. ?body adj h = Some h1 \<and> dfsFrame U h h1 \<and> dfsInv U A m h1 \<and>
             (depth (h1 adj) < sd \<longrightarrow> visited (h1 adj))"
  proof (cases "\<not> visited (h adj) \<and> depth (h adj) < sd")
    case True
    have "depth (h adj) + 1 \<le> m" using True Cons.prems(5) by simp
    from IH[OF Cons.prems(1) _ _ Cons.prems(3,4) this] True Cons.prems(2)
    obtain h1 where "depthFirstSearchRec n adj m h = Some h1" "dfsFrame U h h1"
      "visited (h1 adj)" "dfsInv U A m h1" by auto
    with True show ?thesis by auto
  next
    case False
    then show ?thesis using Cons.prems(4) by (auto simp: dfsFrame_refl)
  qed
  then obtain h1 where b: "?body adj h = Some h1" and f1: "dfsFrame U h h1"
    and i1: "dfsInv U A m h1" and v1: "depth (h1 adj) < sd \<longrightarrow> visited (h1 adj)" by blast
  have "\<exists>h'. foldo ?body ns h1 = Some h' \<and> dfsFrame U h1 h' \<and> dfsInv U A m h' \<and>
             (\<forall>a\<in>set ns. depth (h' a) < sd \<longrightarrow> visited (h' a))"
  proof (rule Cons.IH)
    show "closedIn U h1" by (rule dfsFrame_closedIn[OF f1 Cons.prems(1)])
    show "set ns \<subseteq> U" using Cons.prems(2) by simp
    show "card (unvisited U h1) \<le> n" by (rule card_unvisited_mono[OF fin f1 Cons.prems(3)])
    show "dfsInv U A m h1" by (rule i1)
    show "sd + 1 \<le> m" by (rule Cons.prems(5))
  qed
  then obtain h' where l: "foldo ?body ns h1 = Some h'" and f2: "dfsFrame U h1 h'"
    and i2: "dfsInv U A m h'" and v2: "\<forall>a\<in>set ns. depth (h' a) < sd \<longrightarrow> visited (h' a)"
    by blast
  have "foldo ?body (adj # ns) h = Some h'" using b l by simp
  moreover have "dfsFrame U h h'" by (rule dfsFrame_trans[OF f1 f2])
  moreover have "depth (h' adj) < sd \<longrightarrow> visited (h' adj)"
    using v1 f2 by (simp add: dfsFrame_fields dfsFrame_visited)
  ultimately show ?case using i2 v2 by auto
qed


definition markVisited :: "nat \<Rightarrow> int \<Rightarrow> heap \<Rightarrow> heap" where
  "markVisited start m h = h(start := (h start)\<lparr>visited := True, pathDepth := m\<rparr>)"

lemma markVisited_frame:
  assumes "\<not> visited (h start)" "start \<in> U"
  shows "dfsFrame U h (markVisited start m h)"
  unfolding dfsFrame_def markVisited_def using assms by auto

lemma markVisited_unvisited:
  "unvisited U (markVisited start m h) = unvisited U h - {start}"
  by (auto simp: unvisited_def markVisited_def)

lemma markVisited_inv:
  assumes inv: "dfsInv U A m h" and nv: "\<not> visited (h start)" and d: "depth (h start) + 1 \<le> m"
  shows "dfsInv U (insert start A) m (markVisited start m h)"
proof -
  let ?h = "markVisited start m h"
  have other: "?h a = h a" if "a \<noteq> start" for a using that by (simp add: markVisited_def)
  have st: "visited (?h start)" "pathDepth (?h start) = m" "depth (?h start) = depth (h start)"
    by (simp_all add: markVisited_def)
  have p1: "\<forall>u\<in>U. visited (?h u) \<longrightarrow> m \<le> pathDepth (?h u) \<and> depth (?h u) + 1 \<le> pathDepth (?h u)"
  proof (intro ballI impI)
    fix u assume u: "u \<in> U" "visited (?h u)"
    show "m \<le> pathDepth (?h u) \<and> depth (?h u) + 1 \<le> pathDepth (?h u)"
    proof (cases "u = start")
      case True
      with st d show ?thesis by simp
    next
      case False
      with u inv other show ?thesis by (simp add: dfsInv_def)
    qed
  qed
  have p2: "\<forall>b\<in>U. visited (?h b) \<longrightarrow> b \<notin> insert start A \<longrightarrow>
        (\<forall>a\<in>set (neighbors (?h b)). depth (?h a) < depth (?h b) \<longrightarrow>
           visited (?h a) \<and> pathDepth (?h b) \<le> pathDepth (?h a))"
  proof (intro ballI impI)
    fix b a assume b: "b \<in> U" "visited (?h b)" "b \<notin> insert start A"
      and a: "a \<in> set (neighbors (?h b))" "depth (?h a) < depth (?h b)"
    from b have bs: "b \<noteq> start" "b \<notin> A" by auto
    have hb: "?h b = h b" using bs other by simp
    have da: "depth (?h a) = depth (h a)" by (cases "a = start") (simp_all add: st other)
    from inv b(1) b(2) bs(2) a have va: "visited (h a)" and pa: "pathDepth (h b) \<le> pathDepth (h a)"
      unfolding dfsInv_def hb da by blast+
    from va nv have "a \<noteq> start" by auto
    with va pa hb other show "visited (?h a) \<and> pathDepth (?h b) \<le> pathDepth (?h a)" by simp
  qed
  show ?thesis unfolding dfsInv_def using p1 p2 by blast
qed

lemma depthFirstSearchRec_Suc:
  "depthFirstSearchRec (Suc n) start m h =
     foldo (\<lambda>adj h'. if \<not> visited (h' adj) \<and> depth (h' adj) < depth (h start)
                      then depthFirstSearchRec n adj m h' else Some h')
       (neighbors (h start)) (markVisited start m h)"
  by (simp add: markVisited_def Let_def)

lemma dfs_correct:
  assumes fin: "finite U"
  shows "\<lbrakk>closedIn U h; start \<in> U; \<not> visited (h start); card (unvisited U h) \<le> fuel;
          dfsInv U A m h; depth (h start) + 1 \<le> m\<rbrakk>
    \<Longrightarrow> \<exists>h'. depthFirstSearchRec fuel start m h = Some h' \<and> dfsFrame U h h' \<and>
             visited (h' start) \<and> dfsInv U A m h'"
proof (induction fuel arbitrary: start h A)
  case 0
  have "start \<in> unvisited U h" using 0(2,3) by (simp add: unvisited_def)
  moreover have "finite (unvisited U h)" using fin by (simp add: unvisited_def)
  ultimately have "card (unvisited U h) > 0" by (auto simp: card_gt_0_iff)
  with 0(4) show ?case by simp
next
  case (Suc n)
  let ?h1 = "markVisited start m h"
  let ?sd = "depth (h start)"
  let ?body = "\<lambda>adj h'. if \<not> visited (h' adj) \<and> depth (h' adj) < ?sd
                      then depthFirstSearchRec n adj m h' else Some h'"
  have f1: "dfsFrame U h ?h1" by (rule markVisited_frame[where h = h and start = start and U = U, OF Suc.prems(3,2)])
  have finu: "finite (unvisited U h)" using fin by (simp add: unvisited_def)
  have mem: "start \<in> unvisited U h" using Suc.prems(2,3) by (simp add: unvisited_def)
  have c1: "card (unvisited U ?h1) \<le> n"
    unfolding markVisited_unvisited using Suc.prems(4) finu mem by simp
  have cl1: "closedIn U ?h1" by (rule dfsFrame_closedIn[OF f1 Suc.prems(1)])
  have i1: "dfsInv U (insert start A) m ?h1"
    by (rule markVisited_inv[where h = h and start = start, OF Suc.prems(5,3,6)])
  have ns: "set (neighbors (h start)) \<subseteq> U" using Suc.prems(1,2) by (simp add: closedIn_def)
  have sd: "?sd + 1 \<le> m" by (rule Suc.prems(6))
  have "\<exists>h'. foldo ?body (neighbors (h start)) ?h1 = Some h' \<and>
             dfsFrame U ?h1 h' \<and> dfsInv U (insert start A) m h' \<and>
             (\<forall>a\<in>set (neighbors (h start)). depth (h' a) < ?sd \<longrightarrow> visited (h' a))"
    by (rule dfs_loop[where A = "insert start A", OF Suc.IH fin cl1 ns c1 i1 sd])
  then obtain h' where l: "foldo ?body (neighbors (h start)) ?h1 = Some h'"
    and f2: "dfsFrame U ?h1 h'" and i2: "dfsInv U (insert start A) m h'"
    and v: "\<forall>a\<in>set (neighbors (h start)). depth (h' a) < ?sd \<longrightarrow> visited (h' a)" by blast
  have fr: "dfsFrame U h h'" by (rule dfsFrame_trans[OF f1 f2])
  have vs1: "visited (?h1 start)" by (simp add: markVisited_def)
  have hs: "h' start = ?h1 start" using dfsFrame_same[OF f2] vs1 by blast
  have vs: "visited (h' start)" using hs vs1 by simp
  have ps: "pathDepth (h' start) = m" using hs by (simp add: markVisited_def)
  have inv: "dfsInv U A m h'"
    unfolding dfsInv_def
  proof (intro conjI ballI impI)
    fix u assume "u \<in> U" "visited (h' u)"
    with i2 show "m \<le> pathDepth (h' u)" "depth (h' u) + 1 \<le> pathDepth (h' u)"
      by (simp_all add: dfsInv_def)
  next
    fix b a assume b: "b \<in> U" "visited (h' b)" "b \<notin> A"
      and a: "a \<in> set (neighbors (h' b))" "depth (h' a) < depth (h' b)"
    show "visited (h' a)" "pathDepth (h' b) \<le> pathDepth (h' a)"
    proof -
      have "visited (h' a) \<and> pathDepth (h' b) \<le> pathDepth (h' a)"
      proof (cases "b = start")
        case False
        with b a i2 show ?thesis unfolding dfsInv_def by blast
      next
        case True
        have an: "a \<in> set (neighbors (h start))"
          using a(1) True by (simp add: dfsFrame_fields[OF fr])
        have "depth (h' a) < ?sd" using a(2) True by (simp add: dfsFrame_fields[OF fr])
        with v an have va: "visited (h' a)" by blast
        have "a \<in> U" using an ns by blast
        with va i2 have "m \<le> pathDepth (h' a)" by (simp add: dfsInv_def)
        with va ps True show ?thesis by simp
      qed
      then show "visited (h' a)" "pathDepth (h' b) \<le> pathDepth (h' a)" by simp_all
    qed
  qed
  have "depthFirstSearchRec (Suc n) start m h = Some h'"
    unfolding depthFirstSearchRec_Suc by (rule l)
  with fr vs inv show ?case by blast
qed


text \<open>What holds of the visited blocks once no search is running.\<close>

definition dfsDone :: "nat set \<Rightarrow> heap \<Rightarrow> bool" where
  "dfsDone U h \<longleftrightarrow>
     (\<forall>u\<in>U. visited (h u) \<longrightarrow> depth (h u) + 1 \<le> pathDepth (h u)) \<and>
     (\<forall>b\<in>U. visited (h b) \<longrightarrow>
        (\<forall>a\<in>set (neighbors (h b)). depth (h a) < depth (h b) \<longrightarrow>
           visited (h a) \<and> pathDepth (h b) \<le> pathDepth (h a)))"

lemma dfsInv_iff:
  "dfsInv U {} m h \<longleftrightarrow> dfsDone U h \<and> (\<forall>u\<in>U. visited (h u) \<longrightarrow> m \<le> pathDepth (h u))"
  unfolding dfsInv_def dfsDone_def by auto

text \<open>The first loop of \<^verbatim>\<open>calculateMaxDepth\<close>, over the blocks in descending depth.\<close>

definition pathBody :: "nat \<Rightarrow> nat \<Rightarrow> heap \<Rightarrow> heap option" where
  "pathBody fuel node h' =
     (if \<not> visited (h' node) then depthFirstSearchRec fuel node (depth (h' node) + 1) h'
      else Some h')"

lemma path_loop:
  assumes fin: "finite U" and fuel: "card U \<le> fuel"
  shows "\<lbrakk>closedIn U h; set xs \<subseteq> U; sorted_wrt (\<lambda>a b. depth (h b) \<le> depth (h a)) xs;
          dfsDone U h;
          \<forall>x\<in>set xs. \<forall>u\<in>U. visited (h u) \<longrightarrow> depth (h x) + 1 \<le> pathDepth (h u)\<rbrakk>
    \<Longrightarrow> \<exists>h'. foldo (pathBody fuel) xs h = Some h' \<and> dfsFrame U h h' \<and>
             (\<forall>x\<in>set xs. visited (h' x)) \<and> dfsDone U h'"
proof (induction xs arbitrary: h)
  case Nil
  then show ?case by (simp add: dfsFrame_refl)
next
  case (Cons x xs)
  have xU: "x \<in> U" using Cons.prems(2) by simp
  have "\<exists>h1. pathBody fuel x h = Some h1 \<and> dfsFrame U h h1 \<and> visited (h1 x) \<and>
             dfsInv U {} (depth (h x) + 1) h1"
  proof (cases "visited (h x)")
    case True
    then show ?thesis
      using Cons.prems(4,5) by (auto simp: pathBody_def dfsFrame_refl dfsInv_iff)
  next
    case False
    have "card (unvisited U h) \<le> card U"
      by (rule card_mono[OF fin]) (auto simp: unvisited_def)
    then have c: "card (unvisited U h) \<le> fuel" using fuel by simp
    have i: "dfsInv U {} (depth (h x) + 1) h"
      using Cons.prems(4,5) by (auto simp: dfsInv_iff)
    from dfs_correct[where h = h and start = x and A = "{}", OF fin Cons.prems(1) xU False c i]
    show ?thesis using False by (simp add: pathBody_def)
  qed
  then obtain h1 where b: "pathBody fuel x h = Some h1" and f1: "dfsFrame U h h1"
    and v1: "visited (h1 x)" and i1: "dfsInv U {} (depth (h x) + 1) h1" by blast
  have "\<exists>h'. foldo (pathBody fuel) xs h1 = Some h' \<and> dfsFrame U h1 h' \<and>
             (\<forall>x\<in>set xs. visited (h' x)) \<and> dfsDone U h'"
  proof (rule Cons.IH)
    show "closedIn U h1" by (rule dfsFrame_closedIn[OF f1 Cons.prems(1)])
    show "set xs \<subseteq> U" using Cons.prems(2) by simp
    show "sorted_wrt (\<lambda>a b. depth (h1 b) \<le> depth (h1 a)) xs"
      using Cons.prems(3) by (simp add: dfsFrame_fields[OF f1])
    show "dfsDone U h1" using i1 by (simp add: dfsInv_iff)
    show "\<forall>y\<in>set xs. \<forall>u\<in>U. visited (h1 u) \<longrightarrow> depth (h1 y) + 1 \<le> pathDepth (h1 u)"
    proof (intro ballI impI)
      fix y u assume y: "y \<in> set xs" and u: "u \<in> U" "visited (h1 u)"
      have "depth (h y) \<le> depth (h x)" using Cons.prems(3) y by simp
      moreover have "depth (h x) + 1 \<le> pathDepth (h1 u)" using i1 u by (simp add: dfsInv_iff)
      ultimately show "depth (h1 y) + 1 \<le> pathDepth (h1 u)"
        by (simp add: dfsFrame_fields[OF f1])
    qed
  qed
  then obtain h' where l: "foldo (pathBody fuel) xs h1 = Some h'" and f2: "dfsFrame U h1 h'"
    and v2: "\<forall>x\<in>set xs. visited (h' x)" and d2: "dfsDone U h'" by blast
  have "foldo (pathBody fuel) (x # xs) h = Some h'" using b l by simp
  moreover have "dfsFrame U h h'" by (rule dfsFrame_trans[OF f1 f2])
  moreover have "visited (h' x)" using v1 f2 by (rule dfsFrame_visited[rotated])
  ultimately show ?case using v2 d2 by auto
qed

section \<open>The search that marks fixed blocks\<close>

text \<open>
  \<^verbatim>\<open>samePath\<close> in \<^verbatim>\<open>DFSFindFixed\<close>: \<open>w\<close> is exactly one depth below \<open>sd\<close> and has path depth \<open>pd\<close>.
\<close>

definition sameP :: "int \<Rightarrow> int \<Rightarrow> heap \<Rightarrow> nat \<Rightarrow> bool" where
  "sameP sd pd h w \<longleftrightarrow> sd - depth (h w) = 1 \<and> pd = pathDepth (h w)"

text \<open>The neighbors of \<open>u\<close> that \<^verbatim>\<open>DFSFindFixed\<close> follows from \<open>u\<close>.\<close>

definition below :: "heap \<Rightarrow> nat \<Rightarrow> nat set" where
  "below h u = {w \<in> set (neighbors (h u)). sameP (depth (h u)) (pathDepth (h u)) h w}"

text \<open>
  What the search has established for a block \<open>u\<close> whose call has returned: at depth \<open>0\<close> it is
  fixed; otherwise every neighbor one depth below on the same path has been visited, and \<open>u\<close> is
  fixed exactly when one of them is.
\<close>

definition fixDone :: "heap \<Rightarrow> nat \<Rightarrow> bool" where
  "fixDone h u \<longleftrightarrow>
     (if depth (h u) = 0 then isFixed (h u)
      else list_all (\<lambda>w. visited (h w)) (filter (\<lambda>w. w \<in> below h u) (neighbors (h u))) \<and>
           (isFixed (h u) \<longleftrightarrow> list_ex (\<lambda>w. w \<in> below h u \<and> isFixed (h w)) (neighbors (h u))))"

lemma fixDone_iff:
  "fixDone h u \<longleftrightarrow>
     (if depth (h u) = 0 then isFixed (h u)
      else (\<forall>w\<in>below h u. visited (h w)) \<and> (isFixed (h u) \<longleftrightarrow> (\<exists>w\<in>below h u. isFixed (h w))))"
  unfolding fixDone_def by (auto simp: list_all_iff list_ex_iff below_def)

definition fixInv :: "nat set \<Rightarrow> nat set \<Rightarrow> heap \<Rightarrow> bool" where
  "fixInv U A h \<longleftrightarrow> (\<forall>u\<in>U. visited (h u) \<longrightarrow> u \<notin> A \<longrightarrow> fixDone h u)"

definition fixFrame :: "nat set \<Rightarrow> heap \<Rightarrow> heap \<Rightarrow> bool" where
  "fixFrame U h h' \<longleftrightarrow>
     (\<forall>a. h' a = (h a)\<lparr>visited := visited (h' a), isFixed := isFixed (h' a)\<rparr> \<and>
          (visited (h a) \<or> a \<notin> U \<or> \<not> visited (h' a) \<longrightarrow> h' a = h a))"

lemma fixFrame_refl: "fixFrame U h h"
  by (simp add: fixFrame_def)

lemma fixFrame_same: "fixFrame U h h' \<Longrightarrow> visited (h a) \<or> a \<notin> U \<Longrightarrow> h' a = h a"
  unfolding fixFrame_def by blast

lemma fixFrame_unvisited: "fixFrame U h h' \<Longrightarrow> \<not> visited (h' a) \<Longrightarrow> h' a = h a"
  unfolding fixFrame_def by blast

lemma fixFrame_fields:
  assumes "fixFrame U h h'"
  shows "startMin (h' a) = startMin (h a)" "endMin (h' a) = endMin (h a)"
    "neighbors (h' a) = neighbors (h a)" "depth (h' a) = depth (h a)"
    "pathDepth (h' a) = pathDepth (h a)"
    "left (h' a) = left (h a)" "width (h' a) = width (h a)" "idx (h' a) = idx (h a)"
proof -
  from assms have a: "h' a = (h a)\<lparr>visited := visited (h' a), isFixed := isFixed (h' a)\<rparr>"
    unfolding fixFrame_def by blast
  show "startMin (h' a) = startMin (h a)" by (subst a) simp
  show "endMin (h' a) = endMin (h a)" by (subst a) simp
  show "neighbors (h' a) = neighbors (h a)" by (subst a) simp
  show "depth (h' a) = depth (h a)" by (subst a) simp
  show "pathDepth (h' a) = pathDepth (h a)" by (subst a) simp
  show "left (h' a) = left (h a)" by (subst a) simp
  show "width (h' a) = width (h a)" by (subst a) simp
  show "idx (h' a) = idx (h a)" by (subst a) simp
qed

lemma fixFrame_visited: "fixFrame U h h' \<Longrightarrow> visited (h a) \<Longrightarrow> visited (h' a)"
  by (simp add: fixFrame_same)

lemma fixFrame_trans:
  assumes "fixFrame U h h1" "fixFrame U h1 h2"
  shows "fixFrame U h h2"
  unfolding fixFrame_def
proof (intro allI conjI impI)
  fix a
  have 1: "h1 a = (h a)\<lparr>visited := visited (h1 a), isFixed := isFixed (h1 a)\<rparr>"
    using assms(1) unfolding fixFrame_def by blast
  have 2: "h2 a = (h1 a)\<lparr>visited := visited (h2 a), isFixed := isFixed (h2 a)\<rparr>"
    using assms(2) unfolding fixFrame_def by blast
  show "h2 a = (h a)\<lparr>visited := visited (h2 a), isFixed := isFixed (h2 a)\<rparr>"
    by (subst 2, subst 1) simp
  assume v: "visited (h a) \<or> a \<notin> U \<or> \<not> visited (h2 a)"
  show "h2 a = h a"
  proof (cases "visited (h a) \<or> a \<notin> U")
    case True
    then have e: "h1 a = h a" using assms(1) by (simp add: fixFrame_same)
    with True have "visited (h1 a) \<or> a \<notin> U" by simp
    then have "h2 a = h1 a" using assms(2) by (simp add: fixFrame_same)
    with e show ?thesis by simp
  next
    case False
    with v have n2: "\<not> visited (h2 a)" by simp
    then have e: "h2 a = h1 a" using assms(2) by (simp add: fixFrame_unvisited)
    with n2 have "\<not> visited (h1 a)" by simp
    then have "h1 a = h a" using assms(1) by (simp add: fixFrame_unvisited)
    with e show ?thesis by simp
  qed
qed

lemma fixFrame_closedIn: "fixFrame U h h' \<Longrightarrow> closedIn U h \<Longrightarrow> closedIn U h'"
  by (simp add: closedIn_def fixFrame_fields)

lemma fixFrame_card_unvisited:
  assumes "finite U" "fixFrame U h h'" "card (unvisited U h) \<le> n"
  shows "card (unvisited U h') \<le> n"
proof -
  have "finite (unvisited U h)" using assms(1) by (simp add: unvisited_def)
  moreover have "unvisited U h' \<subseteq> unvisited U h"
    using assms(2) by (auto simp: unvisited_def dest: fixFrame_visited)
  ultimately have "card (unvisited U h') \<le> card (unvisited U h)" by (rule card_mono)
  with assms(3) show ?thesis by simp
qed

lemma fixFrame_sameP: "fixFrame U h h' \<Longrightarrow> sameP sd pd h' w = sameP sd pd h w"
  by (simp add: sameP_def fixFrame_fields)

lemma fixFrame_below: "fixFrame U h h' \<Longrightarrow> below h' u = below h u"
  by (simp add: below_def fixFrame_fields sameP_def)

text \<open>A finished block stays finished while the search goes on elsewhere.\<close>

lemma fixDone_stable:
  assumes fr: "fixFrame U h h'" and v: "visited (h u)" and d: "fixDone h u"
  shows "fixDone h' u"
proof -
  have u: "h' u = h u" using fr v by (simp add: fixFrame_same)
  have b: "below h' u = below h u" by (rule fixFrame_below[OF fr])
  show ?thesis
  proof (cases "depth (h u) = 0")
    case True
    with d u show ?thesis by (simp add: fixDone_iff)
  next
    case False
    with d have vis: "\<forall>w\<in>below h u. visited (h w)"
      and fx: "isFixed (h u) \<longleftrightarrow> (\<exists>w\<in>below h u. isFixed (h w))"
      by (simp_all add: fixDone_iff)
    have same: "h' w = h w" if "w \<in> below h u" for w
      using vis that fr by (simp add: fixFrame_same)
    have "\<forall>w\<in>below h u. visited (h' w)" using vis same by simp
    moreover have "(\<exists>w\<in>below h u. isFixed (h' w)) \<longleftrightarrow> (\<exists>w\<in>below h u. isFixed (h w))"
      using same by simp
    ultimately show ?thesis using False fx u b by (simp add: fixDone_iff)
  qed
qed

text \<open>The assignment \<^verbatim>\<open>start.isFixed = flag\<close>.\<close>

definition setFixed :: "nat \<Rightarrow> bool \<Rightarrow> heap \<Rightarrow> heap" where
  "setFixed start f h = h(start := (h start)\<lparr>isFixed := f\<rparr>)"

lemma setFixed_other [simp]: "a \<noteq> start \<Longrightarrow> setFixed start f h a = h a"
  by (simp add: setFixed_def)

lemma setFixed_fields [simp]:
  "depth (setFixed start f h a) = depth (h a)"
  "pathDepth (setFixed start f h a) = pathDepth (h a)"
  "neighbors (setFixed start f h a) = neighbors (h a)"
  "visited (setFixed start f h a) = visited (h a)"
  "isFixed (setFixed start f h start) = f"
  by (simp_all add: setFixed_def)

lemma below_setFixed [simp]: "below (setFixed start f h) u = below h u"
  by (simp add: below_def sameP_def)

lemma fixDone_setFixed:
  assumes "u \<noteq> start" and "fixDone h u" and "depth (h u) = 0 \<or> start \<notin> below h u"
  shows "fixDone (setFixed start f h) u"
proof (cases "depth (h u) = 0")
  case True
  with assms(1,2) show ?thesis by (simp add: fixDone_iff)
next
  case False
  with assms(3) have nb: "start \<notin> below h u" by simp
  have same: "setFixed start f h w = h w" if "w \<in> below h u" for w
    using that nb by (cases "w = start") simp_all
  from assms(2) False have vis: "\<forall>w\<in>below h u. visited (h w)"
      and fx: "isFixed (h u) \<longleftrightarrow> (\<exists>w\<in>below h u. isFixed (h w))"
    by (simp_all add: fixDone_iff)
  have "(\<exists>w\<in>below h u. isFixed (setFixed start f h w)) \<longleftrightarrow> (\<exists>w\<in>below h u. isFixed (h w))"
    using same by simp
  then show ?thesis using False fx vis assms(1) by (simp add: fixDone_iff)
qed


text \<open>The body of the loop over the neighbors, with the depth and path depth of \<open>start\<close>.\<close>

definition fixBody :: "nat \<Rightarrow> int \<Rightarrow> int \<Rightarrow> nat \<Rightarrow> bool \<times> heap \<Rightarrow> (bool \<times> heap) option" where
  "fixBody n sd pd adj st =
     (case st of (flag, h') \<Rightarrow>
        if visited (h' adj) then Some ((isFixed (h' adj) \<and> sameP sd pd h' adj) \<or> flag, h')
        else if sameP sd pd h' adj then
          (case DFSFindFixed n adj h' of
             None \<Rightarrow> None
           | Some (r, h'') \<Rightarrow> Some (r \<or> flag, h''))
        else Some (flag, h'))"

definition visit :: "nat \<Rightarrow> heap \<Rightarrow> heap" where
  "visit start h = h(start := (h start)\<lparr>visited := True\<rparr>)"

lemma DFSFindFixed_Suc:
  "DFSFindFixed (Suc n) start h =
     (if depth (h start) = 0 then Some (True, setFixed start True (visit start h))
      else (case foldo (fixBody n (depth (h start)) (pathDepth (h start)))
                   (neighbors (h start)) (False, visit start h) of
              None \<Rightarrow> None
            | Some (flag, h2) \<Rightarrow> Some (flag, setFixed start flag h2)))"
proof -
  have "(\<lambda>adj (flag, h').
          (let samePath = (depth (h start) - depth (h' adj) = 1 \<and>
                           pathDepth (h start) = pathDepth (h' adj))
           in if visited (h' adj) then Some ((isFixed (h' adj) \<and> samePath) \<or> flag, h')
              else if samePath then
                (case DFSFindFixed n adj h' of
                   None \<Rightarrow> None
                 | Some (r, h'') \<Rightarrow> Some (r \<or> flag, h''))
              else Some (flag, h')))
        = fixBody n (depth (h start)) (pathDepth (h start))"
    by (intro ext) (simp add: fixBody_def sameP_def Let_def split: prod.splits)
  then show ?thesis
    by (simp add: Let_def visit_def setFixed_def split: option.splits prod.splits)
qed

lemma visit_frame:
  assumes "\<not> visited (h start)" "start \<in> U"
  shows "fixFrame U h (visit start h)"
  unfolding fixFrame_def visit_def using assms by auto

lemma visit_unvisited: "unvisited U (visit start h) = unvisited U h - {start}"
  by (auto simp: unvisited_def visit_def)

lemma visit_simps [simp]: "visited (visit start h start)" "a \<noteq> start \<Longrightarrow> visit start h a = h a"
  by (simp_all add: visit_def)

text \<open>The blocks that a step has newly visited lie below depth \<open>sd\<close>.\<close>

definition newBelow :: "int \<Rightarrow> heap \<Rightarrow> heap \<Rightarrow> bool" where
  "newBelow sd h h' \<longleftrightarrow> (\<forall>a. visited (h' a) \<and> \<not> visited (h a) \<longrightarrow> depth (h a) < sd)"

lemma newBelow_refl: "newBelow sd h h"
  by (simp add: newBelow_def)

lemma newBelow_trans:
  assumes "newBelow sd h h1" "newBelow sd h1 h2" "fixFrame U h h1"
  shows "newBelow sd h h2"
  unfolding newBelow_def
proof (intro allI impI)
  fix a assume a: "visited (h2 a) \<and> \<not> visited (h a)"
  show "depth (h a) < sd"
  proof (cases "visited (h1 a)")
    case True
    with a assms(1) show ?thesis by (simp add: newBelow_def)
  next
    case False
    with a assms(2) have "depth (h1 a) < sd" by (simp add: newBelow_def)
    then show ?thesis by (simp add: fixFrame_fields[OF assms(3)])
  qed
qed

text \<open>The result of one call, as the induction on the fuel establishes it.\<close>

definition fixCall :: "nat set \<Rightarrow> nat set \<Rightarrow> nat \<Rightarrow> heap \<Rightarrow> (bool \<times> heap) option \<Rightarrow> bool" where
  "fixCall U A start h res \<longleftrightarrow>
     (\<exists>r h'. res = Some (r, h') \<and> fixFrame U h h' \<and> visited (h' start) \<and> fixInv U A h' \<and>
        newBelow (depth (h start) + 1) h h' \<and> r = isFixed (h' start))"

lemma fix_step:
  assumes IH: "\<And>s h. \<lbrakk>closedIn U h; s \<in> U; \<not> visited (h s); card (unvisited U h) \<le> n;
                  fixInv U A h; \<forall>a\<in>A. depth (h s) < depth (h a)\<rbrakk>
           \<Longrightarrow> fixCall U A s h (DFSFindFixed n s h)"
    and cl: "closedIn U h" and adj: "adj \<in> U" and c: "card (unvisited U h) \<le> n"
    and inv: "fixInv U A h" and A: "\<forall>a\<in>A. sd \<le> depth (h a)"
  shows "\<exists>flag1 h1. fixBody n sd pd adj (flag, h) = Some (flag1, h1) \<and> fixFrame U h h1 \<and>
           fixInv U A h1 \<and> newBelow sd h h1 \<and>
           (sameP sd pd h1 adj \<longrightarrow> visited (h1 adj)) \<and>
           (flag1 \<longleftrightarrow> flag \<or> (sameP sd pd h1 adj \<and> isFixed (h1 adj)))"
proof (cases "visited (h adj)")
  case True
  then have "fixBody n sd pd adj (flag, h) = Some ((isFixed (h adj) \<and> sameP sd pd h adj) \<or> flag, h)"
    by (simp add: fixBody_def)
  with True inv show ?thesis by (auto simp: fixFrame_refl newBelow_refl)
next
  case nv: False
  show ?thesis
  proof (cases "sameP sd pd h adj")
    case False
    with nv have "fixBody n sd pd adj (flag, h) = Some (flag, h)" by (simp add: fixBody_def)
    with False inv show ?thesis by (auto simp: fixFrame_refl newBelow_refl)
  next
    case True
    then have da: "depth (h adj) + 1 = sd" by (simp add: sameP_def)
    have "\<forall>a\<in>A. depth (h adj) < depth (h a)" using A da by fastforce
    from IH[OF cl adj nv c inv this]
    obtain r h1 where res: "DFSFindFixed n adj h = Some (r, h1)" and fr: "fixFrame U h h1"
      and v: "visited (h1 adj)" and i1: "fixInv U A h1"
      and nb: "newBelow (depth (h adj) + 1) h h1" and r: "r = isFixed (h1 adj)"
      unfolding fixCall_def by blast
    have "fixBody n sd pd adj (flag, h) = Some (r \<or> flag, h1)"
      using nv True res by (simp add: fixBody_def)
    moreover have "sameP sd pd h1 adj" using True by (simp add: fixFrame_sameP[OF fr])
    ultimately show ?thesis using fr v i1 nb r da by auto
  qed
qed

lemma fix_loop:
  assumes IH: "\<And>s h. \<lbrakk>closedIn U h; s \<in> U; \<not> visited (h s); card (unvisited U h) \<le> n;
                  fixInv U A h; \<forall>a\<in>A. depth (h s) < depth (h a)\<rbrakk>
           \<Longrightarrow> fixCall U A s h (DFSFindFixed n s h)"
    and fin: "finite U"
  shows "\<lbrakk>closedIn U h; set ns \<subseteq> U; card (unvisited U h) \<le> n; fixInv U A h;
          \<forall>a\<in>A. sd \<le> depth (h a)\<rbrakk>
    \<Longrightarrow> \<exists>flag' h'. foldo (fixBody n sd pd) ns (flag, h) = Some (flag', h') \<and>
           fixFrame U h h' \<and> fixInv U A h' \<and> newBelow sd h h' \<and>
           (\<forall>w\<in>set ns. sameP sd pd h' w \<longrightarrow> visited (h' w)) \<and>
           (flag' \<longleftrightarrow> flag \<or> (\<exists>w\<in>set ns. sameP sd pd h' w \<and> isFixed (h' w)))"
proof (induction ns arbitrary: h flag)
  case Nil
  then show ?case by (simp add: fixFrame_refl newBelow_refl)
next
  case (Cons adj ns)
  have adjU: "adj \<in> U" using Cons.prems(2) by simp
  from fix_step[where h = h and flag = flag and pd = pd, OF IH Cons.prems(1) adjU Cons.prems(3,4,5)]
  obtain flag1 h1 where b: "fixBody n sd pd adj (flag, h) = Some (flag1, h1)"
    and f1: "fixFrame U h h1" and i1: "fixInv U A h1" and n1: "newBelow sd h h1"
    and v1: "sameP sd pd h1 adj \<longrightarrow> visited (h1 adj)"
    and fl1: "flag1 \<longleftrightarrow> flag \<or> (sameP sd pd h1 adj \<and> isFixed (h1 adj))"
    by blast
  have "\<exists>flag' h'. foldo (fixBody n sd pd) ns (flag1, h1) = Some (flag', h') \<and>
           fixFrame U h1 h' \<and> fixInv U A h' \<and> newBelow sd h1 h' \<and>
           (\<forall>w\<in>set ns. sameP sd pd h' w \<longrightarrow> visited (h' w)) \<and>
           (flag' \<longleftrightarrow> flag1 \<or> (\<exists>w\<in>set ns. sameP sd pd h' w \<and> isFixed (h' w)))"
  proof (rule Cons.IH)
    show "closedIn U h1" by (rule fixFrame_closedIn[OF f1 Cons.prems(1)])
    show "set ns \<subseteq> U" using Cons.prems(2) by simp
    show "card (unvisited U h1) \<le> n" by (rule fixFrame_card_unvisited[OF fin f1 Cons.prems(3)])
    show "fixInv U A h1" by (rule i1)
    show "\<forall>a\<in>A. sd \<le> depth (h1 a)" using Cons.prems(5) by (simp add: fixFrame_fields[OF f1])
  qed
  then obtain flag' h' where l: "foldo (fixBody n sd pd) ns (flag1, h1) = Some (flag', h')"
    and f2: "fixFrame U h1 h'" and i2: "fixInv U A h'" and n2: "newBelow sd h1 h'"
    and v2: "\<forall>w\<in>set ns. sameP sd pd h' w \<longrightarrow> visited (h' w)"
    and fl2: "flag' \<longleftrightarrow> flag1 \<or> (\<exists>w\<in>set ns. sameP sd pd h' w \<and> isFixed (h' w))"
    by blast
  have sp: "sameP sd pd h' adj = sameP sd pd h1 adj" by (rule fixFrame_sameP[OF f2])
  have keep: "sameP sd pd h1 adj \<Longrightarrow> h' adj = h1 adj"
    using v1 f2 by (simp add: fixFrame_same)
  have a1: "foldo (fixBody n sd pd) (adj # ns) (flag, h) = Some (flag', h')" using b l by simp
  have a2: "fixFrame U h h'" by (rule fixFrame_trans[OF f1 f2])
  have a3: "newBelow sd h h'" by (rule newBelow_trans[OF n1 n2 f1])
  have a4: "\<forall>w\<in>set (adj # ns). sameP sd pd h' w \<longrightarrow> visited (h' w)"
    using v2 v1 keep sp by auto
  have a5: "flag' \<longleftrightarrow> flag \<or> (\<exists>w\<in>set (adj # ns). sameP sd pd h' w \<and> isFixed (h' w))"
    using fl1 fl2 keep sp by auto
  show ?case using a1 a2 i2 a3 a4 a5 by blast
qed


lemma fixFrame_setFixed:
  assumes "fixFrame U h h'" "\<not> visited (h start)" "start \<in> U" "visited (h' start)"
  shows "fixFrame U h (setFixed start f h')"
  unfolding fixFrame_def
proof (intro allI conjI impI)
  fix a
  have 1: "h' a = (h a)\<lparr>visited := visited (h' a), isFixed := isFixed (h' a)\<rparr>"
    using assms(1) unfolding fixFrame_def by blast
  show "setFixed start f h' a =
      (h a)\<lparr>visited := visited (setFixed start f h' a), isFixed := isFixed (setFixed start f h' a)\<rparr>"
  proof (cases "a = start")
    case True
    have "(h' start)\<lparr>isFixed := f\<rparr> =
        ((h start)\<lparr>visited := visited (h' start), isFixed := isFixed (h' start)\<rparr>)\<lparr>isFixed := f\<rparr>"
      using 1 True by simp
    then show ?thesis unfolding True by (simp add: setFixed_def)
  next
    case False
    then show ?thesis using 1 by simp
  qed
  assume v: "visited (h a) \<or> a \<notin> U \<or> \<not> visited (setFixed start f h' a)"
  with assms(2,3,4) have ne: "a \<noteq> start" by auto
  with v have "visited (h a) \<or> a \<notin> U \<or> \<not> visited (h' a)" by simp
  then have "h' a = h a" using assms(1) unfolding fixFrame_def by blast
  with ne show "setFixed start f h' a = h a" by simp
qed

lemma fixInv_visit:
  assumes inv: "fixInv U A h" and nv: "\<not> visited (h start)" and sU: "start \<in> U"
  shows "fixInv U (insert start A) (visit start h)"
  unfolding fixInv_def
proof (intro ballI impI)
  fix u assume u: "u \<in> U" "visited (visit start h u)" "u \<notin> insert start A"
  then have "u \<noteq> start" "u \<notin> A" by auto
  with u have "visited (h u)" by simp
  with inv u(1) \<open>u \<notin> A\<close> have "fixDone h u" by (simp add: fixInv_def)
  with visit_frame[of h start U, OF nv sU] \<open>visited (h u)\<close>
  show "fixDone (visit start h) u" by (rule fixDone_stable)
qed

text \<open>An unvisited block is below no finished block that is not at depth \<open>0\<close>.\<close>

lemma unvisited_not_below:
  assumes "fixDone h u" "\<not> visited (h start)" "depth (h u) \<noteq> 0"
  shows "start \<notin> below h u"
  using assms by (auto simp: fixDone_iff)

lemma fix_correct:
  assumes fin: "finite U"
  shows "\<lbrakk>closedIn U h; start \<in> U; \<not> visited (h start); card (unvisited U h) \<le> fuel;
          fixInv U A h; \<forall>a\<in>A. depth (h start) < depth (h a)\<rbrakk>
    \<Longrightarrow> fixCall U A start h (DFSFindFixed fuel start h)"
proof (induction fuel arbitrary: start h A)
  case 0
  have "start \<in> unvisited U h" using 0(2,3) by (simp add: unvisited_def)
  moreover have "finite (unvisited U h)" using fin by (simp add: unvisited_def)
  ultimately have "card (unvisited U h) > 0" by (auto simp: card_gt_0_iff)
  with 0(4) show ?case by simp
next
  case (Suc n)
  let ?h1 = "visit start h"
  let ?sd = "depth (h start)" and ?pd = "pathDepth (h start)"
  note cl = Suc.prems(1) and sU = Suc.prems(2) and nv = Suc.prems(3) and inv = Suc.prems(5)
  have f1: "fixFrame U h ?h1" by (rule visit_frame[of h start U, OF nv sU])
  have sA: "start \<notin> A" using Suc.prems(6) by auto
  have old: "fixDone h u \<and> visited (h u)"
    if "u \<in> U" "u \<noteq> start" "u \<notin> A" "visited (h u)" for u
    using that inv by (simp add: fixInv_def)
  show ?case
  proof (cases "?sd = 0")
    case True
    let ?h2 = "setFixed start True ?h1"
    have res: "DFSFindFixed (Suc n) start h = Some (True, ?h2)"
      unfolding DFSFindFixed_Suc using True by simp
    have fr: "fixFrame U h ?h2" by (rule fixFrame_setFixed[OF f1 nv sU]) simp
    have nb: "newBelow (?sd + 1) h ?h2"
      unfolding newBelow_def
    proof (intro allI impI)
      fix a assume "visited (?h2 a) \<and> \<not> visited (h a)"
      then have "a = start" by (cases "a = start") simp_all
      then show "depth (h a) < ?sd + 1" by simp
    qed
    have i2: "fixInv U A ?h2"
      unfolding fixInv_def
    proof (intro ballI impI)
      fix u assume u: "u \<in> U" "visited (?h2 u)" "u \<notin> A"
      show "fixDone ?h2 u"
      proof (cases "u = start")
        case True
        then show ?thesis using \<open>?sd = 0\<close> by (simp add: fixDone_iff visit_def)
      next
        case False
        with u have vu: "visited (h u)" by simp
        from old[OF u(1) False u(3) vu] have d: "fixDone h u" by simp
        have d1: "fixDone ?h1 u" by (rule fixDone_stable[OF f1 vu d])
        have "depth (?h1 u) = 0 \<or> start \<notin> below ?h1 u"
          using unvisited_not_below[OF d nv] fixFrame_below[OF f1, of u]
          by (auto simp: fixFrame_fields[OF f1])
        with False d1 show ?thesis by (rule fixDone_setFixed)
      qed
    qed
    have "visited (?h2 start)" by simp
    moreover have "True = isFixed (?h2 start)" by simp
    ultimately show ?thesis unfolding fixCall_def res using fr nb i2 by blast
  next
    case False
    have c1: "card (unvisited U ?h1) \<le> n"
    proof -
      have "finite (unvisited U h)" using fin by (simp add: unvisited_def)
      moreover have "start \<in> unvisited U h" using sU nv by (simp add: unvisited_def)
      ultimately show ?thesis unfolding visit_unvisited using Suc.prems(4) by simp
    qed
    have cl1: "closedIn U ?h1" by (rule fixFrame_closedIn[OF f1 cl])
    have ns: "set (neighbors (h start)) \<subseteq> U" using cl sU by (simp add: closedIn_def)
    have i1: "fixInv U (insert start A) ?h1" by (rule fixInv_visit[OF inv nv sU])
    have A1: "\<forall>a\<in>insert start A. ?sd \<le> depth (?h1 a)"
      using Suc.prems(6) by (auto simp: fixFrame_fields[OF f1])
    have "\<exists>flag' h'. foldo (fixBody n ?sd ?pd) (neighbors (h start)) (False, ?h1) = Some (flag', h') \<and>
           fixFrame U ?h1 h' \<and> fixInv U (insert start A) h' \<and> newBelow ?sd ?h1 h' \<and>
           (\<forall>w\<in>set (neighbors (h start)). sameP ?sd ?pd h' w \<longrightarrow> visited (h' w)) \<and>
           (flag' \<longleftrightarrow> False \<or> (\<exists>w\<in>set (neighbors (h start)). sameP ?sd ?pd h' w \<and> isFixed (h' w)))"
      by (rule fix_loop[where A = "insert start A", OF Suc.IH fin cl1 ns c1 i1 A1])
    then obtain flag' h' where
      l: "foldo (fixBody n ?sd ?pd) (neighbors (h start)) (False, ?h1) = Some (flag', h')"
      and f2: "fixFrame U ?h1 h'" and i2: "fixInv U (insert start A) h'"
      and n2: "newBelow ?sd ?h1 h'"
      and v2: "\<forall>w\<in>set (neighbors (h start)). sameP ?sd ?pd h' w \<longrightarrow> visited (h' w)"
      and fl: "flag' \<longleftrightarrow> (\<exists>w\<in>set (neighbors (h start)). sameP ?sd ?pd h' w \<and> isFixed (h' w))"
      by auto
    let ?h2 = "setFixed start flag' h'"
    have res: "DFSFindFixed (Suc n) start h = Some (flag', ?h2)"
      unfolding DFSFindFixed_Suc using False l by simp
    have f12: "fixFrame U h h'" by (rule fixFrame_trans[OF f1 f2])
    have vs: "visited (h' start)" using f2 by (rule fixFrame_visited) simp
    have fr: "fixFrame U h ?h2" by (rule fixFrame_setFixed[OF f12 nv sU vs])
    have nb: "newBelow (?sd + 1) h ?h2"
      unfolding newBelow_def
    proof (intro allI impI)
      fix a assume a: "visited (?h2 a) \<and> \<not> visited (h a)"
      show "depth (h a) < ?sd + 1"
      proof (cases "a = start")
        case True
        then show ?thesis by simp
      next
        case False
        with a have "visited (h' a) \<and> \<not> visited (?h1 a)" by simp
        with n2 have "depth (?h1 a) < ?sd" by (simp add: newBelow_def)
        then show ?thesis by (simp add: fixFrame_fields[OF f1])
      qed
    qed
    have bel: "below h' start = {w \<in> set (neighbors (h start)). sameP ?sd ?pd h' w}"
      by (simp add: below_def fixFrame_fields[OF f12])
    have snb: "start \<notin> below h' start"
      by (simp add: below_def sameP_def)
    have i3: "fixInv U A ?h2"
      unfolding fixInv_def
    proof (intro ballI impI)
      fix u assume u: "u \<in> U" "visited (?h2 u)" "u \<notin> A"
      show "fixDone ?h2 u"
      proof (cases "u = start")
        case True
        have d: "depth (?h2 start) \<noteq> 0" using False by (simp add: fixFrame_fields[OF f12])
        have b2: "below ?h2 start = below h' start" by simp
        have "\<forall>w\<in>below h' start. visited (?h2 w)" using v2 unfolding bel by simp
        moreover have "isFixed (?h2 start) \<longleftrightarrow> (\<exists>w\<in>below h' start. isFixed (?h2 w))"
        proof -
          have "isFixed (?h2 w) = isFixed (h' w)" if "w \<in> below h' start" for w
            using that snb by (cases "w = start") simp_all
          then have "(\<exists>w\<in>below h' start. isFixed (?h2 w)) \<longleftrightarrow> (\<exists>w\<in>below h' start. isFixed (h' w))"
            by simp
          also have "\<dots> \<longleftrightarrow> flag'" unfolding fl bel by auto
          finally show ?thesis by simp
        qed
        ultimately show ?thesis unfolding True fixDone_iff b2 using d by simp
      next
        case ne: False
        with u have vu: "visited (h' u)" by simp
        from i2 u(1) vu ne u(3) have d': "fixDone h' u" by (simp add: fixInv_def)
        have "depth (h' u) = 0 \<or> start \<notin> below h' u"
        proof (cases "visited (h u)")
          case True
          from old[OF u(1) ne u(3) True] have "fixDone h u" by simp
          from unvisited_not_below[OF this nv] show ?thesis
            using fixFrame_below[OF f12, of u] by (auto simp: fixFrame_fields[OF f12])
        next
          case nvu: False
          with ne have "\<not> visited (?h1 u)" by simp
          with vu n2 have "depth (?h1 u) < ?sd" by (auto simp: newBelow_def)
          then have "depth (h' u) < depth (h' start)"
            by (simp add: fixFrame_fields[OF f12] fixFrame_fields[OF f1])
          then show ?thesis by (auto simp: below_def sameP_def)
        qed
        with ne d' show ?thesis by (rule fixDone_setFixed)
      qed
    qed
    have "visited (?h2 start)" using vs by simp
    moreover have "flag' = isFixed (?h2 start)" by simp
    ultimately show ?thesis unfolding fixCall_def res using fr nb i3 by blast
  qed
qed


text \<open>The second loop of \<^verbatim>\<open>calculateMaxDepth\<close>: a search starts at every unvisited seed.\<close>

definition seed :: "heap \<Rightarrow> nat \<Rightarrow> bool" where
  "seed h node \<longleftrightarrow> list_all (\<lambda>v. depth (h v) < depth (h node)) (neighbors (h node))"

definition fixTop :: "nat \<Rightarrow> nat \<Rightarrow> heap \<Rightarrow> heap option" where
  "fixTop fuel node h' =
     (if \<not> visited (h' node) \<and> seed h' node then map_option snd (DFSFindFixed fuel node h')
      else Some h')"

lemma fixFrame_seed: "fixFrame U h h' \<Longrightarrow> seed h' x = seed h x"
  by (simp add: seed_def fixFrame_fields)

lemma fix_top_loop:
  assumes fin: "finite U" and fuel: "card U \<le> fuel"
  shows "\<lbrakk>closedIn U h; set xs \<subseteq> U; fixInv U {} h\<rbrakk>
    \<Longrightarrow> \<exists>h'. foldo (fixTop fuel) xs h = Some h' \<and> fixFrame U h h' \<and> fixInv U {} h' \<and>
             (\<forall>x\<in>set xs. seed h' x \<longrightarrow> visited (h' x))"
proof (induction xs arbitrary: h)
  case Nil
  then show ?case by (simp add: fixFrame_refl)
next
  case (Cons x xs)
  have xU: "x \<in> U" using Cons.prems(2) by simp
  have "\<exists>h1. fixTop fuel x h = Some h1 \<and> fixFrame U h h1 \<and> fixInv U {} h1 \<and>
             (seed h1 x \<longrightarrow> visited (h1 x))"
  proof (cases "\<not> visited (h x) \<and> seed h x")
    case True
    have "card (unvisited U h) \<le> card U"
      by (rule card_mono[OF fin]) (auto simp: unvisited_def)
    then have c: "card (unvisited U h) \<le> fuel" using fuel by simp
    from fix_correct[where h = h and start = x and A = "{}", OF fin Cons.prems(1) xU _ c Cons.prems(3)]
      True
    have "fixCall U {} x h (DFSFindFixed fuel x h)" by simp
    then obtain r h1 where "DFSFindFixed fuel x h = Some (r, h1)" "fixFrame U h h1"
      "visited (h1 x)" "fixInv U {} h1" unfolding fixCall_def by blast
    with True show ?thesis by (auto simp: fixTop_def)
  next
    case False
    then have "fixTop fuel x h = Some h" by (auto simp: fixTop_def)
    with False Cons.prems(3) show ?thesis by (auto simp: fixFrame_refl)
  qed
  then obtain h1 where b: "fixTop fuel x h = Some h1" and f1: "fixFrame U h h1"
    and i1: "fixInv U {} h1" and v1: "seed h1 x \<longrightarrow> visited (h1 x)" by blast
  have "\<exists>h'. foldo (fixTop fuel) xs h1 = Some h' \<and> fixFrame U h1 h' \<and> fixInv U {} h' \<and>
             (\<forall>x\<in>set xs. seed h' x \<longrightarrow> visited (h' x))"
  proof (rule Cons.IH)
    show "closedIn U h1" by (rule fixFrame_closedIn[OF f1 Cons.prems(1)])
    show "set xs \<subseteq> U" using Cons.prems(2) by simp
    show "fixInv U {} h1" by (rule i1)
  qed
  then obtain h' where l: "foldo (fixTop fuel) xs h1 = Some h'" and f2: "fixFrame U h1 h'"
    and i2: "fixInv U {} h'" and v2: "\<forall>x\<in>set xs. seed h' x \<longrightarrow> visited (h' x)" by blast
  have "foldo (fixTop fuel) (x # xs) h = Some h'" using b l by simp
  moreover have "fixFrame U h h'" by (rule fixFrame_trans[OF f1 f2])
  moreover have "seed h' x \<longrightarrow> visited (h' x)"
    using v1 fixFrame_seed[OF f2, of x] fixFrame_visited[OF f2, of x] by blast
  ultimately show ?case using i2 v2 by auto
qed

lemma clearVisited_apply:
  "clearVisited blocks h a = (if a \<in> set blocks then (h a)\<lparr>visited := False\<rparr> else h a)"
proof -
  have "fold (\<lambda>node h'. h'(node := (h' node)\<lparr>visited := False\<rparr>)) blocks h a =
      (if a \<in> set blocks then (h a)\<lparr>visited := False\<rparr> else h a)"
    by (induction blocks arbitrary: h) auto
  then show ?thesis by (simp add: clearVisited_def)
qed

lemma calculateMaxDepth_alt:
  "calculateMaxDepth fuel blocks h =
     (let blocks' = sort_cmp (\<lambda>v1 v2. depth (h v2) - depth (h v1)) blocks
      in case foldo (pathBody fuel) blocks' h of
           None \<Rightarrow> None
         | Some h1 \<Rightarrow>
             (case foldo (fixTop fuel) blocks' (clearVisited blocks' h1) of
                None \<Rightarrow> None
              | Some h3 \<Rightarrow> Some (blocks', h3)))"
proof -
  have 1: "(\<lambda>node h'. if \<not> visited (h' node)
                then depthFirstSearchRec fuel node (depth (h' node) + 1) h'
                else Some h') = pathBody fuel"
    by (intro ext) (simp add: pathBody_def)
  have 2: "(\<lambda>node h'. if \<not> visited (h' node) \<and>
                         list_all (\<lambda>v. depth (h' v) < depth (h' node)) (neighbors (h' node))
                      then map_option snd (DFSFindFixed fuel node h')
                      else Some h') = fixTop fuel"
    by (intro ext) (simp add: fixTop_def seed_def)
  show ?thesis unfolding calculateMaxDepth_def 1 2 ..
qed

text \<open>What \<^verbatim>\<open>calculateMaxDepth\<close> establishes on a weekday whose blocks enter unvisited.\<close>

definition pathsDone :: "nat set \<Rightarrow> heap \<Rightarrow> heap \<Rightarrow> bool" where
  "pathsDone U h h' \<longleftrightarrow>
     (\<forall>a. h' a = (h a)\<lparr>visited := visited (h' a), isFixed := isFixed (h' a),
                        pathDepth := pathDepth (h' a)\<rparr> \<and>
          (a \<notin> U \<longrightarrow> h' a = h a)) \<and>
     (\<forall>u\<in>U. depth (h' u) + 1 \<le> pathDepth (h' u)) \<and>
     (\<forall>b\<in>U. \<forall>a\<in>set (neighbors (h' b)). depth (h' a) < depth (h' b) \<longrightarrow>
        pathDepth (h' b) \<le> pathDepth (h' a)) \<and>
     fixInv U {} h' \<and>
     (\<forall>x\<in>U. seed h' x \<longrightarrow> visited (h' x)) \<and>
     (\<forall>a\<in>U. \<not> visited (h' a) \<longrightarrow> isFixed (h' a) = isFixed (h a))"

lemma calculateMaxDepth_correct:
  assumes cl: "closedIn (set blocks) h" and nv: "\<forall>a\<in>set blocks. \<not> visited (h a)"
    and fuel: "length blocks \<le> fuel"
  shows "\<exists>h3. calculateMaxDepth fuel blocks h =
            Some (sort_cmp (\<lambda>v1 v2. depth (h v2) - depth (h v1)) blocks, h3) \<and>
          pathsDone (set blocks) h h3"
proof -
  let ?U = "set blocks"
  let ?bs = "sort_cmp (\<lambda>v1 v2. depth (h v2) - depth (h v1)) blocks"
  have fin: "finite ?U" by simp
  have cf: "card ?U \<le> fuel" using fuel card_length[of blocks] by simp
  have "\<exists>h1. foldo (pathBody fuel) ?bs h = Some h1 \<and> dfsFrame ?U h h1 \<and>
             (\<forall>x\<in>set ?bs. visited (h1 x)) \<and> dfsDone ?U h1"
  proof (rule path_loop[OF fin cf cl])
    show "set ?bs \<subseteq> ?U" by simp
    show "sorted_wrt (\<lambda>a b. depth (h b) \<le> depth (h a)) ?bs" by (rule sorted_cmpDepth)
    show "dfsDone ?U h" using nv by (simp add: dfsDone_def)
    show "\<forall>x\<in>set ?bs. \<forall>u\<in>?U. visited (h u) \<longrightarrow> depth (h x) + 1 \<le> pathDepth (h u)"
      using nv by simp
  qed
  then obtain h1 where l1: "foldo (pathBody fuel) ?bs h = Some h1" and f1: "dfsFrame ?U h h1"
    and v1: "\<forall>x\<in>?U. visited (h1 x)" and d1: "dfsDone ?U h1" by auto
  let ?h2 = "clearVisited ?bs h1"
  have h2: "?h2 a = (if a \<in> ?U then (h1 a)\<lparr>visited := False\<rparr> else h1 a)" for a
    by (simp add: clearVisited_apply)
  have cl2: "closedIn ?U ?h2"
    using dfsFrame_closedIn[OF f1 cl] by (simp add: closedIn_def h2)
  have i2: "fixInv ?U {} ?h2" by (simp add: fixInv_def h2)
  have "\<exists>h3. foldo (fixTop fuel) ?bs ?h2 = Some h3 \<and> fixFrame ?U ?h2 h3 \<and> fixInv ?U {} h3 \<and>
             (\<forall>x\<in>set ?bs. seed h3 x \<longrightarrow> visited (h3 x))"
    by (rule fix_top_loop[OF fin cf cl2 _ i2]) simp
  then obtain h3 where l3: "foldo (fixTop fuel) ?bs ?h2 = Some h3" and f3: "fixFrame ?U ?h2 h3"
    and i3: "fixInv ?U {} h3" and s3: "\<forall>x\<in>?U. seed h3 x \<longrightarrow> visited (h3 x)" by auto
  have res: "calculateMaxDepth fuel blocks h = Some (?bs, h3)"
    unfolding calculateMaxDepth_alt Let_def l1 using l3 by simp
  have dep: "depth (h3 a) = depth (h a)" for a
    by (simp add: fixFrame_fields[OF f3] h2 dfsFrame_fields[OF f1])
  have pd: "pathDepth (h3 a) = pathDepth (h1 a)" for a
    by (simp add: fixFrame_fields[OF f3] h2)
  have nbr: "neighbors (h3 a) = neighbors (h a)" for a
    by (simp add: fixFrame_fields[OF f3] h2 dfsFrame_fields[OF f1])
  have p1: "h3 a = (h a)\<lparr>visited := visited (h3 a), isFixed := isFixed (h3 a),
                        pathDepth := pathDepth (h3 a)\<rparr> \<and> (a \<notin> ?U \<longrightarrow> h3 a = h a)" for a
  proof -
    have a3: "h3 a = (?h2 a)\<lparr>visited := visited (h3 a), isFixed := isFixed (h3 a)\<rparr>"
      using f3 unfolding fixFrame_def by blast
    have a1: "h1 a = (h a)\<lparr>visited := visited (h1 a), pathDepth := pathDepth (h1 a)\<rparr>"
      using f1 unfolding dfsFrame_def by blast
    have "h3 a = (h a)\<lparr>visited := visited (h3 a), isFixed := isFixed (h3 a),
                        pathDepth := pathDepth (h1 a)\<rparr>"
      by (subst a3, subst h2, subst a1, subst a1) simp
    moreover have "a \<notin> ?U \<longrightarrow> h3 a = h a"
      using fixFrame_same[OF f3, of a] dfsFrame_same[OF f1, of a] by (simp add: h2)
    ultimately show ?thesis by (simp add: pd)
  qed
  have p2: "\<forall>u\<in>?U. depth (h3 u) + 1 \<le> pathDepth (h3 u)"
    using d1 v1 by (simp add: dfsDone_def dep pd dfsFrame_fields[OF f1])
  have p3: "\<forall>b\<in>?U. \<forall>a\<in>set (neighbors (h3 b)). depth (h3 a) < depth (h3 b) \<longrightarrow>
        pathDepth (h3 b) \<le> pathDepth (h3 a)"
    using d1 v1 by (simp add: dfsDone_def dep pd nbr dfsFrame_fields[OF f1])
  have p6: "\<forall>a\<in>?U. \<not> visited (h3 a) \<longrightarrow> isFixed (h3 a) = isFixed (h a)"
  proof (intro ballI impI)
    fix a assume a: "a \<in> ?U" "\<not> visited (h3 a)"
    have "h3 a = ?h2 a" using f3 a(2) by (rule fixFrame_unvisited)
    then show "isFixed (h3 a) = isFixed (h a)"
      using a(1) by (simp add: h2 dfsFrame_fields[OF f1])
  qed
  show ?thesis unfolding pathsDone_def using res p1 p2 p3 i3 s3 p6 by blast
qed

section \<open>The components\<close>

text \<open>\<^verbatim>\<open>BFS\<close> changes nothing but \<open>visited\<close>, and only on blocks that were not visited.\<close>

definition bfsFrame :: "nat set \<Rightarrow> heap \<Rightarrow> heap \<Rightarrow> bool" where
  "bfsFrame U h h' \<longleftrightarrow>
     (\<forall>a. h' a = (h a)\<lparr>visited := visited (h' a)\<rparr> \<and> (visited (h a) \<or> a \<notin> U \<longrightarrow> h' a = h a))"

lemma bfsFrame_refl: "bfsFrame U h h"
  by (simp add: bfsFrame_def)

lemma bfsFrame_same: "bfsFrame U h h' \<Longrightarrow> visited (h a) \<or> a \<notin> U \<Longrightarrow> h' a = h a"
  unfolding bfsFrame_def by blast

lemma bfsFrame_fields:
  assumes "bfsFrame U h h'"
  shows "startMin (h' a) = startMin (h a)" "endMin (h' a) = endMin (h a)"
    "neighbors (h' a) = neighbors (h a)" "depth (h' a) = depth (h a)"
    "pathDepth (h' a) = pathDepth (h a)" "isFixed (h' a) = isFixed (h a)"
    "left (h' a) = left (h a)" "width (h' a) = width (h a)" "idx (h' a) = idx (h a)"
proof -
  from assms have a: "h' a = (h a)\<lparr>visited := visited (h' a)\<rparr>"
    unfolding bfsFrame_def by blast
  show "startMin (h' a) = startMin (h a)" by (subst a) simp
  show "endMin (h' a) = endMin (h a)" by (subst a) simp
  show "neighbors (h' a) = neighbors (h a)" by (subst a) simp
  show "depth (h' a) = depth (h a)" by (subst a) simp
  show "pathDepth (h' a) = pathDepth (h a)" by (subst a) simp
  show "isFixed (h' a) = isFixed (h a)" by (subst a) simp
  show "left (h' a) = left (h a)" by (subst a) simp
  show "width (h' a) = width (h a)" by (subst a) simp
  show "idx (h' a) = idx (h a)" by (subst a) simp
qed

lemma bfsFrame_visited: "bfsFrame U h h' \<Longrightarrow> visited (h a) \<Longrightarrow> visited (h' a)"
  by (simp add: bfsFrame_same)

lemma bfsFrame_trans:
  assumes "bfsFrame U h h1" "bfsFrame U h1 h2"
  shows "bfsFrame U h h2"
  unfolding bfsFrame_def
proof (intro allI conjI impI)
  fix a
  have 1: "h1 a = (h a)\<lparr>visited := visited (h1 a)\<rparr>"
    using assms(1) unfolding bfsFrame_def by blast
  have 2: "h2 a = (h1 a)\<lparr>visited := visited (h2 a)\<rparr>"
    using assms(2) unfolding bfsFrame_def by blast
  show "h2 a = (h a)\<lparr>visited := visited (h2 a)\<rparr>"
    by (subst 2, subst 1) simp
  assume v: "visited (h a) \<or> a \<notin> U"
  then have e: "h1 a = h a" using assms(1) by (simp add: bfsFrame_same)
  with v have "visited (h1 a) \<or> a \<notin> U" by simp
  then have "h2 a = h1 a" using assms(2) by (simp add: bfsFrame_same)
  with e show "h2 a = h a" by simp
qed

lemma bfsFrame_closedIn: "bfsFrame U h h' \<Longrightarrow> closedIn U h \<Longrightarrow> closedIn U h'"
  by (simp add: closedIn_def bfsFrame_fields)

lemma bfsFrame_visit:
  assumes "\<not> visited (h start)" "start \<in> U"
  shows "bfsFrame U h (visit start h)"
  unfolding bfsFrame_def visit_def using assms by auto

lemma card_remove1: "finite S \<Longrightarrow> x \<in> S \<Longrightarrow> card (S - {x}) + 1 = card S"
  by (metis Suc_eq_plus1 card_Suc_Diff1)

text \<open>
  The measure of the loop: the entries of \<^verbatim>\<open>componentNodes\<close> not yet read plus the blocks not
  yet visited.  Pushing a block moves it from the second summand to the first.
\<close>

lemma bfsVisit_fold:
  assumes fin: "finite U"
  shows "set ns \<subseteq> U \<Longrightarrow>
    \<exists>cs' h'. fold bfsVisit ns (cs, h) = (cs', h') \<and> bfsFrame U h h' \<and>
      set cs' \<subseteq> set cs \<union> set ns \<and>
      length cs' + card (unvisited U h') = length cs + card (unvisited U h)"
proof (induction ns arbitrary: cs h)
  case Nil
  then show ?case by (simp add: bfsFrame_refl)
next
  case (Cons x ns)
  have xU: "x \<in> U" using Cons.prems by simp
  have finu: "finite (unvisited U h)" using fin by (simp add: unvisited_def)
  have "\<exists>cs1 h1. bfsVisit x (cs, h) = (cs1, h1) \<and> bfsFrame U h h1 \<and>
      set cs1 \<subseteq> set cs \<union> {x} \<and>
      length cs1 + card (unvisited U h1) = length cs + card (unvisited U h)"
  proof (cases "\<not> visited (h x) \<and> \<not> isFixed (h x)")
    case True
    then have e: "bfsVisit x (cs, h) = (cs @ [x], visit x h)"
      by (simp add: bfsVisit_def visit_def)
    have "x \<in> unvisited U h" using True xU by (simp add: unvisited_def)
    then have "card (unvisited U h - {x}) + 1 = card (unvisited U h)"
      using finu by (intro card_remove1)
    then have "length (cs @ [x]) + card (unvisited U (visit x h)) =
        length cs + card (unvisited U h)"
      by (simp add: visit_unvisited)
    moreover have "bfsFrame U h (visit x h)" using True xU by (simp add: bfsFrame_visit)
    ultimately show ?thesis unfolding e by auto
  next
    case False
    then have "bfsVisit x (cs, h) = (cs, h)" by (auto simp: bfsVisit_def)
    then show ?thesis by (auto simp: bfsFrame_refl)
  qed
  then obtain cs1 h1 where b: "bfsVisit x (cs, h) = (cs1, h1)" and f1: "bfsFrame U h h1"
    and s1: "set cs1 \<subseteq> set cs \<union> {x}"
    and m1: "length cs1 + card (unvisited U h1) = length cs + card (unvisited U h)" by blast
  from Cons.IH[of cs1 h1] Cons.prems
  obtain cs' h' where l: "fold bfsVisit ns (cs1, h1) = (cs', h')" and f2: "bfsFrame U h1 h'"
    and s2: "set cs' \<subseteq> set cs1 \<union> set ns"
    and m2: "length cs' + card (unvisited U h') = length cs1 + card (unvisited U h1)"
    by auto
  have "fold bfsVisit (x # ns) (cs, h) = (cs', h')" using b l by simp
  moreover have "bfsFrame U h h'" by (rule bfsFrame_trans[OF f1 f2])
  moreover have "set cs' \<subseteq> set cs \<union> set (x # ns)" using s1 s2 by auto
  ultimately show ?case using m1 m2 by auto
qed

lemma BFS_loop_returns:
  assumes fin: "finite U"
  shows "\<lbrakk>closedIn U h; set cs \<subseteq> U; qIdx \<le> length cs;
          (length cs - qIdx) + card (unvisited U h) < fuel\<rbrakk>
    \<Longrightarrow> \<exists>cs' h'. BFS_loop fuel qIdx cs h = Some (cs', h') \<and> bfsFrame U h h'"
proof (induction fuel arbitrary: qIdx cs h)
  case 0
  then show ?case by simp
next
  case (Suc n)
  show ?case
  proof (cases "qIdx < length cs")
    case False
    then show ?thesis by (simp add: bfsFrame_refl)
  next
    case True
    let ?ns = "neighbors (h (cs ! qIdx))"
    have "cs ! qIdx \<in> U" using True Suc.prems(2) by (auto simp: subset_iff)
    then have ns: "set ?ns \<subseteq> U" using Suc.prems(1) by (simp add: closedIn_def)
    from bfsVisit_fold[OF fin ns, of cs h]
    obtain cs1 h1 where f: "fold bfsVisit ?ns (cs, h) = (cs1, h1)"
      and f1: "bfsFrame U h h1" and s1: "set cs1 \<subseteq> set cs \<union> set ?ns"
      and m1: "length cs1 + card (unvisited U h1) = length cs + card (unvisited U h)"
      by blast
    have "\<exists>cs' h'. BFS_loop n (Suc qIdx) cs1 h1 = Some (cs', h') \<and> bfsFrame U h1 h'"
    proof (rule Suc.IH)
      show "closedIn U h1" by (rule bfsFrame_closedIn[OF f1 Suc.prems(1)])
      show "set cs1 \<subseteq> U" using s1 ns Suc.prems(2) by blast
      have "card (unvisited U h1) \<le> card (unvisited U h)"
      proof (rule card_mono)
        show "finite (unvisited U h)" using fin by (simp add: unvisited_def)
        show "unvisited U h1 \<subseteq> unvisited U h"
          using f1 by (auto simp: unvisited_def dest: bfsFrame_visited)
      qed
      with m1 have le: "length cs \<le> length cs1" by simp
      then show "Suc qIdx \<le> length cs1" using True by simp
      show "length cs1 - Suc qIdx + card (unvisited U h1) < n"
        using m1 Suc.prems(4) True le by simp
    qed
    then obtain cs' h' where l: "BFS_loop n (Suc qIdx) cs1 h1 = Some (cs', h')"
      and f2: "bfsFrame U h1 h'" by blast
    have "BFS_loop (Suc n) qIdx cs h = Some (cs', h')" using True f l by simp
    moreover have "bfsFrame U h h'" by (rule bfsFrame_trans[OF f1 f2])
    ultimately show ?thesis by blast
  qed
qed

lemma BFS_returns:
  assumes fin: "finite U" and cl: "closedIn U h" and sU: "start \<in> U"
    and nv: "\<not> visited (h start)" and fuel: "card U < fuel"
  shows "\<exists>cs' h'. BFS fuel start h = Some (cs', h') \<and> bfsFrame U h h'"
proof -
  let ?h1 = "visit start h"
  have f1: "bfsFrame U h ?h1" by (rule bfsFrame_visit[of h start U, OF nv sU])
  have finu: "finite (unvisited U h)" using fin by (simp add: unvisited_def)
  have mem: "start \<in> unvisited U h" using sU nv by (simp add: unvisited_def)
  have "card (unvisited U h) \<le> card U"
    by (rule card_mono[OF fin]) (auto simp: unvisited_def)
  moreover have "card (unvisited U h - {start}) + 1 = card (unvisited U h)"
    using finu mem by (rule card_remove1)
  ultimately have m: "(length [start] - 0) + card (unvisited U ?h1) < fuel"
    unfolding visit_unvisited using fuel by simp
  have "\<exists>cs' h'. BFS_loop fuel 0 [start] ?h1 = Some (cs', h') \<and> bfsFrame U ?h1 h'"
    by (rule BFS_loop_returns[OF fin bfsFrame_closedIn[OF f1 cl] _ _ m]) (simp_all add: sU)
  then obtain cs' h' where "BFS_loop fuel 0 [start] ?h1 = Some (cs', h')"
    "bfsFrame U ?h1 h'" by blast
  with f1 show ?thesis unfolding BFS_def visit_def[symmetric]
    by (blast intro: bfsFrame_trans)
qed

lemma dispatch_returns:
  assumes fin: "finite U" and fuel: "card U < fuel"
  shows "\<lbrakk>closedIn U h; set xs \<subseteq> U\<rbrakk>
    \<Longrightarrow> \<exists>h' ps'. dispatch fuel xs (h, ps) = Some (h', ps') \<and> bfsFrame U h h'"
proof (induction xs arbitrary: h ps)
  case Nil
  then show ?case by (simp add: dispatch_def bfsFrame_refl)
next
  case (Cons x xs)
  let ?f = "\<lambda>b (h, promises).
              if \<not> visited (h b) \<and> \<not> isFixed (h b) then
                (case BFS fuel b h of
                   None \<Rightarrow> None
                 | Some (component, h') \<Rightarrow> Some (h', promises @ [component]))
              else Some (h, promises)"
  have xU: "x \<in> U" using Cons.prems(2) by simp
  have "\<exists>h1 ps1. ?f x (h, ps) = Some (h1, ps1) \<and> bfsFrame U h h1"
  proof (cases "\<not> visited (h x) \<and> \<not> isFixed (h x)")
    case True
    from BFS_returns[OF fin Cons.prems(1) xU _ fuel] True
    obtain cs h1 where "BFS fuel x h = Some (cs, h1)" "bfsFrame U h h1" by blast
    with True show ?thesis by auto
  next
    case False
    then show ?thesis by (auto simp: bfsFrame_refl)
  qed
  then obtain h1 ps1 where b: "?f x (h, ps) = Some (h1, ps1)" and f1: "bfsFrame U h h1" by blast
  from Cons.IH[of h1 ps1] bfsFrame_closedIn[OF f1 Cons.prems(1)] Cons.prems(2)
  obtain h' ps' where l: "dispatch fuel xs (h1, ps1) = Some (h', ps')" and f2: "bfsFrame U h1 h'"
    by auto
  have "dispatch fuel (x # xs) (h, ps) = Some (h', ps')"
    using b l unfolding dispatch_def by simp
  with bfsFrame_trans[OF f1 f2] show ?case by blast
qed

section \<open>The layout of a weekday, stage by stage\<close>

lemma setIdx_apply: "setIdx blocks h a = (h a)\<lparr>idx := idx (setIdx blocks h a)\<rparr>"
proof -
  define F where "F = (\<lambda>(i::nat, b::nat) (h'::heap). h'(b := (h' b)\<lparr>idx := i\<rparr>))"
  have "fold F (enumerate n blocks) h a = (h a)\<lparr>idx := idx (fold F (enumerate n blocks) h a)\<rparr>"
    for n
  proof (induction blocks arbitrary: n h)
    case Nil
    then show ?case by simp
  next
    case (Cons b bs)
    let ?h1 = "h(b := (h b)\<lparr>idx := n\<rparr>)"
    let ?r = "fold F (enumerate (Suc n) bs) ?h1"
    have e: "fold F (enumerate n (b # bs)) h = ?r" by (simp add: F_def)
    have "?r a = (?h1 a)\<lparr>idx := idx (?r a)\<rparr>" by (rule Cons.IH)
    also have "\<dots> = (h a)\<lparr>idx := idx (?r a)\<rparr>" by simp
    finally show ?case unfolding e .
  qed
  then show ?thesis by (simp add: setIdx_def F_def)
qed

lemma setIdx_outside: "a \<notin> set blocks \<Longrightarrow> setIdx blocks h a = h a"
proof -
  define F where "F = (\<lambda>(i::nat, b::nat) (h'::heap). h'(b := (h' b)\<lparr>idx := i\<rparr>))"
  have "a \<notin> set blocks \<Longrightarrow> fold F (enumerate n blocks) h a = h a" for n
    by (induction blocks arbitrary: n h) (auto simp: F_def)
  then show "a \<notin> set blocks \<Longrightarrow> setIdx blocks h a = h a"
    by (simp add: setIdx_def F_def)
qed

lemma setIdx_fields:
  "startMin (setIdx blocks h a) = startMin (h a)" "endMin (setIdx blocks h a) = endMin (h a)"
  "depth (setIdx blocks h a) = depth (h a)" "neighbors (setIdx blocks h a) = neighbors (h a)"
  "visited (setIdx blocks h a) = visited (h a)" "isFixed (setIdx blocks h a) = isFixed (h a)"
  by (subst setIdx_apply, simp)+

lemma fullWidth_apply:
  "fullWidth blocks h a =
     (if a \<in> set blocks then (h a)\<lparr>left := Fin 0, width := Fin 1\<rparr> else h a)"
proof -
  have "fold (\<lambda>node h'. h'(node := (h' node)\<lparr>left := Fin 0, width := Fin 1\<rparr>)) blocks h a =
      (if a \<in> set blocks then (h a)\<lparr>left := Fin 0, width := Fin 1\<rparr> else h a)"
    by (induction blocks arbitrary: h) auto
  then show ?thesis by (simp add: fullWidth_def)
qed

lemma pathWidth_apply:
  "pathWidth blocks h a =
     (if a \<in> set blocks
      then (h a)\<lparr>left := js_div (depth (h a)) (pathDepth (h a)),
                 width := js_div 1 (pathDepth (h a))\<rparr>
      else h a)"
proof -
  have "fold (\<lambda>b h'. h'(b := (h' b)\<lparr>left := js_div (depth (h' b)) (pathDepth (h' b)),
                                  width := js_div 1 (pathDepth (h' b))\<rparr>)) blocks h a =
     (if a \<in> set blocks
      then (h a)\<lparr>left := js_div (depth (h a)) (pathDepth (h a)),
                 width := js_div 1 (pathDepth (h a))\<rparr>
      else h a)"
    by (induction blocks arbitrary: h) auto
  then show ?thesis by (simp add: pathWidth_def)
qed

text \<open>The interval of every block is the same in both stores.\<close>

definition timesKept :: "heap \<Rightarrow> heap \<Rightarrow> bool" where
  "timesKept h h' \<longleftrightarrow> (\<forall>a. startMin (h' a) = startMin (h a) \<and> endMin (h' a) = endMin (h a))"

lemma timesKept_conflict: "timesKept h h' \<Longrightarrow> conflict (h' a) (h' b) = conflict (h a) (h b)"
  by (simp add: timesKept_def conflict_def)

text \<open>The two outcomes of the layout.\<close>

definition oneColumn :: "nat set \<Rightarrow> heap \<Rightarrow> bool" where
  "oneColumn U h' \<longleftrightarrow> (\<forall>a\<in>U. depth (h' a) = 0 \<and> left (h' a) = Fin 0 \<and> width (h' a) = Fin 1)"

definition manyColumns :: "nat set \<Rightarrow> heap \<Rightarrow> bool" where
  "manyColumns U h' \<longleftrightarrow>
     (\<forall>a\<in>U. 0 \<le> depth (h' a) \<and> depth (h' a) + 1 \<le> pathDepth (h' a) \<and>
        left (h' a) = js_div (depth (h' a)) (pathDepth (h' a)) \<and>
        width (h' a) = js_div 1 (pathDepth (h' a))) \<and>
     (\<forall>a\<in>U. \<forall>b\<in>U. conflict (h' a) (h' b) \<and> depth (h' a) < depth (h' b) \<longrightarrow>
        pathDepth (h' b) \<le> pathDepth (h' a))"

text \<open>The store after the first two stages, on fresh blocks.\<close>

lemma graph_built:
  assumes dist: "distinct blocks" and fr: "\<forall>a\<in>set blocks. fresh (h a)"
  defines "h1 \<equiv> constructAdjList blocks (setIdx blocks h)"
  shows "timesKept h h1"
    and "\<forall>a\<in>set blocks. depth (h1 a) = 0 \<and> \<not> visited (h1 a) \<and> \<not> isFixed (h1 a) \<and>
           neighbors (h1 a) = filter (\<lambda>b. b \<noteq> a \<and> conflict (h a) (h b)) blocks"
    and "closedIn (set blocks) h1"
    and "\<forall>a. a \<notin> set blocks \<longrightarrow> h1 a = h a"
proof -
  have h1: "h1 a = pushNeighbors (setIdx blocks h a)
       (if a \<in> set blocks
        then filter (\<lambda>b. b \<noteq> a \<and> conflict (setIdx blocks h a) (setIdx blocks h b)) blocks
        else [])" for a
    unfolding h1_def by (rule constructAdjList_apply[OF dist])
  have cf: "conflict (setIdx blocks h a) (setIdx blocks h b) = conflict (h a) (h b)" for a b
    by (simp add: conflict_def setIdx_fields)
  show "timesKept h h1" by (simp add: timesKept_def h1 setIdx_fields)
  show 2: "\<forall>a\<in>set blocks. depth (h1 a) = 0 \<and> \<not> visited (h1 a) \<and> \<not> isFixed (h1 a) \<and>
           neighbors (h1 a) = filter (\<lambda>b. b \<noteq> a \<and> conflict (h a) (h b)) blocks"
    using fr by (simp add: h1 setIdx_fields cf fresh_def)
  show "closedIn (set blocks) h1"
    unfolding closedIn_def using 2 by auto
  show "\<forall>a. a \<notin> set blocks \<longrightarrow> h1 a = h a"
    by (simp add: h1 setIdx_outside)
qed


lemma pathsDone_fields:
  assumes "pathsDone U h h'"
  shows "startMin (h' a) = startMin (h a)" "endMin (h' a) = endMin (h a)"
    "neighbors (h' a) = neighbors (h a)" "depth (h' a) = depth (h a)"
    "left (h' a) = left (h a)" "width (h' a) = width (h a)" "idx (h' a) = idx (h a)"
proof -
  from assms have a: "h' a = (h a)\<lparr>visited := visited (h' a), isFixed := isFixed (h' a),
                        pathDepth := pathDepth (h' a)\<rparr>"
    unfolding pathsDone_def by blast
  show "startMin (h' a) = startMin (h a)" by (subst a) simp
  show "endMin (h' a) = endMin (h a)" by (subst a) simp
  show "neighbors (h' a) = neighbors (h a)" by (subst a) simp
  show "depth (h' a) = depth (h a)" by (subst a) simp
  show "left (h' a) = left (h a)" by (subst a) simp
  show "width (h' a) = width (h a)" by (subst a) simp
  show "idx (h' a) = idx (h a)" by (subst a) simp
qed

lemma layoutWeekday_eq:
  "layoutWeekday fuel blocks (h, promises) =
     (case intervalScheduling2 blocks (constructAdjList blocks (setIdx blocks h)) of
        (total', blocks1, h2) \<Rightarrow>
          if total' \<le> 1 then Some (blocks1, fullWidth blocks1 h2, promises)
          else
            (case calculateMaxDepth fuel blocks1 h2 of
               None \<Rightarrow> None
             | Some (blocks2, h3) \<Rightarrow>
                 (case dispatch fuel blocks2
                         (clearVisited blocks2 (pathWidth blocks2 h3), promises) of
                    None \<Rightarrow> None
                  | Some (h4, promises') \<Rightarrow> Some (blocks2, h4, promises'))))"
  by (simp add: layoutWeekday_def)

text \<open>The layout of a weekday of fresh blocks: it returns, and how the blocks are left.\<close>

lemma layoutWeekday_fresh:
  assumes dist: "distinct blocks" and fr: "\<forall>a\<in>set blocks. fresh (h a)"
    and fuel: "length blocks < fuel"
  shows "\<exists>bs' h' ps'. layoutWeekday fuel blocks (h, ps) = Some (bs', h', ps') \<and>
           set bs' = set blocks \<and> timesKept h h' \<and>
           (\<forall>a. a \<notin> set blocks \<longrightarrow> h' a = h a) \<and> noSharedDepth blocks h h' \<and>
           (if fst (intervalScheduling2 blocks (constructAdjList blocks (setIdx blocks h))) \<le> 1
            then oneColumn (set blocks) h' \<and> ps' = ps
            else manyColumns (set blocks) h')"
proof -
  let ?U = "set blocks"
  define h1 where "h1 = constructAdjList blocks (setIdx blocks h)"
  note g = graph_built[OF dist fr, folded h1_def]
  have t1: "timesKept h h1" by (rule g(1))
  have cf1: "conflict (h1 a) (h1 b) = conflict (h a) (h b)" for a b
    by (rule timesKept_conflict[OF t1])
  obtain n bs1 h2 where r: "intervalScheduling2 blocks h1 = (n, bs1, h2)"
    by (cases "intervalScheduling2 blocks h1")
  show ?thesis
  proof (cases "blocks = []")
    case True
    have "layoutWeekday fuel [] (h, ps) = Some ([], constructAdjList [] (setIdx [] h), ps)"
      by (simp add: layoutWeekday_eq intervalScheduling2_def fullWidth_def)
    then have "layoutWeekday fuel blocks (h, ps) = Some ([], h1, ps)"
      unfolding h1_def True .
    moreover have "fst (intervalScheduling2 blocks h1) \<le> 1"
      unfolding True by (simp add: intervalScheduling2_def)
    ultimately show ?thesis
      unfolding h1_def[symmetric] using t1 True g(4)
      by (simp add: noSharedDepth_def oneColumn_def)
  next
    case False
    have "hd (sort_cmp (cmpStart h1) blocks) \<in> ?U"
      using False by (metis hd_in_set set_sort_cmp sort_cmp_Nil_iff)
    then have d0: "depth (h1 (hd (sort_cmp (cmpStart h1) blocks))) = 0" using g(2) by blast
    have sc: "scheduled blocks h1 (n, bs1, h2)"
      using intervalScheduling2_scheduled[of blocks h1, OF dist False d0] r by simp
    have bs1: "bs1 = sort_cmp (cmpStart h1) blocks"
      and dO: "depthOnly (set (tl bs1)) h1 h2"
      using sc unfolding scheduled_def by blast+
    have set1: "set bs1 = ?U" by (simp add: bs1)
    have len1: "length bs1 = length blocks" by (simp add: bs1)
    have t2: "timesKept h h2"
      using t1 by (simp add: timesKept_def depthOnly_fields[OF dO])
    have ns2: "depth (h2 a) \<noteq> depth (h2 b)"
      if "a \<in> ?U" "b \<in> ?U" "a \<noteq> b" "conflict (h a) (h b)" for a b
      using scheduled_no_shared_depth[OF sc that(1,2,3)] that(4) cf1 by simp
    have img: "(\<lambda>a. depth (h2 a)) ` ?U = {0..n - 1}" and n1: "1 \<le> n"
      using scheduled_depths[OF sc] by simp_all
    have rng: "0 \<le> depth (h2 a) \<and> depth (h2 a) \<le> n - 1" if "a \<in> ?U" for a
      using img that by (metis atLeastAtMost_iff imageI)
    show ?thesis
    proof (cases "n \<le> 1")
      case True
      let ?h' = "fullWidth bs1 h2"
      have res: "layoutWeekday fuel blocks (h, ps) = Some (bs1, ?h', ps)"
        unfolding layoutWeekday_eq h1_def[symmetric] r using True by simp
      have dep: "depth (?h' a) = depth (h2 a)" for a by (simp add: fullWidth_apply)
      have t3: "timesKept h ?h'" using t2 by (simp add: timesKept_def fullWidth_apply)
      have nsd: "noSharedDepth blocks h ?h'"
        unfolding noSharedDepth_def dep using ns2 by blast
      have one: "oneColumn ?U ?h'"
        unfolding oneColumn_def
      proof
        fix a assume a: "a \<in> ?U"
        from rng[OF a] True n1 have "depth (h2 a) = 0" by simp
        then show "depth (?h' a) = 0 \<and> left (?h' a) = Fin 0 \<and> width (?h' a) = Fin 1"
          using a by (simp add: fullWidth_apply set1)
      qed
      have out: "\<forall>a. a \<notin> ?U \<longrightarrow> ?h' a = h a"
      proof (intro allI impI)
        fix a assume a: "a \<notin> ?U"
        then have "a \<notin> set (tl bs1)" using set1 by (metis list.set_sel(2) tl_Nil)
        with a g(4) show "?h' a = h a"
          by (simp add: fullWidth_apply set1 depthOnly_same[OF dO])
      qed
      have "fst (intervalScheduling2 blocks h1) \<le> 1" using r True by simp
      then show ?thesis
        unfolding h1_def[symmetric] using res set1 t3 nsd one out by simp
    next
      case many: False
      let ?bs2 = "sort_cmp (\<lambda>v1 v2. depth (h2 v2) - depth (h2 v1)) bs1"
      have nb2: "neighbors (h2 a) = neighbors (h1 a)" for a by (rule depthOnly_fields[OF dO])
      have cl2: "closedIn (set bs1) h2"
        using g(3) unfolding closedIn_def set1 nb2 .
      have nv2: "\<forall>a\<in>set bs1. \<not> visited (h2 a)"
        using g(2) by (simp add: set1 depthOnly_fields[OF dO])
      have fl: "length bs1 \<le> fuel" using fuel len1 by simp
      from calculateMaxDepth_correct[OF cl2 nv2 fl]
      obtain h3 where c3: "calculateMaxDepth fuel bs1 h2 = Some (?bs2, h3)"
        and pd: "pathsDone ?U h2 h3" unfolding set1 by blast
      have set2: "set ?bs2 = ?U" by (simp add: set1)
      let ?h5 = "clearVisited ?bs2 (pathWidth ?bs2 h3)"
      have nb5: "neighbors (?h5 a) = neighbors (h1 a)" for a
        by (simp add: clearVisited_apply pathWidth_apply pathsDone_fields[OF pd] nb2)
      have cl5: "closedIn ?U ?h5" using g(3) unfolding closedIn_def nb5 .
      have cU: "card ?U < fuel" using fuel card_length[of blocks] by simp
      from dispatch_returns[of ?U fuel ?h5 ?bs2 ps, OF _ cU cl5] set2
      obtain h6 ps' where d6: "dispatch fuel ?bs2 (?h5, ps) = Some (h6, ps')"
        and f6: "bfsFrame ?U ?h5 h6" by auto
      have res: "layoutWeekday fuel blocks (h, ps) = Some (?bs2, h6, ps')"
        unfolding layoutWeekday_eq h1_def[symmetric] r using many c3 d6 by simp
      have dep: "depth (h6 a) = depth (h2 a)" for a
        by (simp add: bfsFrame_fields[OF f6] clearVisited_apply pathWidth_apply
            pathsDone_fields[OF pd])
      have pth: "pathDepth (h6 a) = pathDepth (h3 a)" for a
        by (simp add: bfsFrame_fields[OF f6] clearVisited_apply pathWidth_apply)
      have t6: "timesKept h h6"
        using t2 by (simp add: timesKept_def bfsFrame_fields[OF f6] clearVisited_apply
            pathWidth_apply pathsDone_fields[OF pd])
      have lw: "left (h6 a) = js_div (depth (h6 a)) (pathDepth (h6 a)) \<and>
                width (h6 a) = js_div 1 (pathDepth (h6 a))" if "a \<in> ?U" for a
        using that unfolding dep pth
        by (simp add: bfsFrame_fields[OF f6] clearVisited_apply pathWidth_apply set1
            pathsDone_fields[OF pd])
      have nsd: "noSharedDepth blocks h h6"
        unfolding noSharedDepth_def dep using ns2 by blast
      have p2: "\<forall>u\<in>?U. depth (h3 u) + 1 \<le> pathDepth (h3 u)"
        using pd unfolding pathsDone_def by blast
      have p3: "\<forall>b\<in>?U. \<forall>a\<in>set (neighbors (h3 b)). depth (h3 a) < depth (h3 b) \<longrightarrow>
          pathDepth (h3 b) \<le> pathDepth (h3 a)"
        using pd unfolding pathsDone_def by blast
      have m1: "\<forall>a\<in>?U. 0 \<le> depth (h6 a) \<and> depth (h6 a) + 1 \<le> pathDepth (h6 a) \<and>
          left (h6 a) = js_div (depth (h6 a)) (pathDepth (h6 a)) \<and>
          width (h6 a) = js_div 1 (pathDepth (h6 a))"
      proof
        fix a assume a: "a \<in> ?U"
        have "depth (h3 a) + 1 \<le> pathDepth (h3 a)" using p2 a by blast
        then have "depth (h6 a) + 1 \<le> pathDepth (h6 a)"
          unfolding dep pth by (simp add: pathsDone_fields[OF pd])
        with rng[OF a] lw[OF a] show "0 \<le> depth (h6 a) \<and> depth (h6 a) + 1 \<le> pathDepth (h6 a) \<and>
          left (h6 a) = js_div (depth (h6 a)) (pathDepth (h6 a)) \<and>
          width (h6 a) = js_div 1 (pathDepth (h6 a))" by (simp add: dep)
      qed
      have m2: "\<forall>a\<in>?U. \<forall>b\<in>?U. conflict (h6 a) (h6 b) \<and> depth (h6 a) < depth (h6 b) \<longrightarrow>
          pathDepth (h6 b) \<le> pathDepth (h6 a)"
      proof (intro ballI impI)
        fix a b assume a: "a \<in> ?U" and b: "b \<in> ?U"
          and c: "conflict (h6 a) (h6 b) \<and> depth (h6 a) < depth (h6 b)"
        from c have cab: "conflict (h b) (h a)"
          using timesKept_conflict[OF t6] conflict_sym by blast
        from c have ne: "a \<noteq> b" by auto
        have "neighbors (h3 b) = filter (\<lambda>x. x \<noteq> b \<and> conflict (h b) (h x)) blocks"
          using g(2) b by (simp add: pathsDone_fields[OF pd] nb2)
        then have "a \<in> set (neighbors (h3 b))" using a ne cab by simp
        moreover have "depth (h3 a) < depth (h3 b)"
          using c by (simp add: dep pathsDone_fields[OF pd])
        ultimately have "pathDepth (h3 b) \<le> pathDepth (h3 a)" using p3 b by blast
        then show "pathDepth (h6 b) \<le> pathDepth (h6 a)" by (simp add: pth)
      qed
      have out: "\<forall>a. a \<notin> ?U \<longrightarrow> h6 a = h a"
      proof (intro allI impI)
        fix a assume a: "a \<notin> ?U"
        then have "a \<notin> set (tl bs1)" using set1 by (metis list.set_sel(2) tl_Nil)
        then have "h2 a = h a" using a g(4) by (simp add: depthOnly_same[OF dO])
        moreover have "h3 a = h2 a" using pd a unfolding pathsDone_def by blast
        moreover have "?h5 a = h3 a" using a by (simp add: clearVisited_apply pathWidth_apply set1)
        moreover have "h6 a = ?h5 a" using a by (simp add: bfsFrame_same[OF f6])
        ultimately show "h6 a = h a" by simp
      qed
      have "\<not> fst (intervalScheduling2 blocks h1) \<le> 1" using r many by simp
      moreover have "manyColumns ?U h6" unfolding manyColumns_def using m1 m2 by blast
      ultimately show ?thesis
        unfolding h1_def[symmetric] using res set2 t6 nsd out by simp
    qed
  qed
qed

section \<open>All the days\<close>

text \<open>Two different blocks of the weekday conflict.\<close>

definition hasConflict :: "nat list \<Rightarrow> heap \<Rightarrow> bool" where
  "hasConflict blocks h \<longleftrightarrow>
     (\<exists>a\<in>set blocks. \<exists>b\<in>set blocks. a \<noteq> b \<and> conflict (h a) (h b))"

definition wellFormed :: "nat list \<Rightarrow> heap \<Rightarrow> bool" where
  "wellFormed blocks h \<longleftrightarrow> (\<forall>a\<in>set blocks. startMin (h a) < endMin (h a))"

text \<open>
  How the layout leaves the blocks of one weekday; \<open>h\<close> is the store before the layout and
  \<open>h'\<close> the store after it.
\<close>

definition dayLaidOut :: "nat list \<Rightarrow> heap \<Rightarrow> heap \<Rightarrow> bool" where
  "dayLaidOut blocks h h' \<longleftrightarrow>
     noSharedDepth blocks h h' \<and>
     (\<forall>a\<in>set blocks. \<forall>b\<in>set blocks. conflict (h' a) (h' b) = conflict (h a) (h b)) \<and>
     (oneColumn (set blocks) h' \<or> manyColumns (set blocks) h') \<and>
     (hasConflict blocks h \<longrightarrow> manyColumns (set blocks) h') \<and>
     (wellFormed blocks h \<and> \<not> hasConflict blocks h \<longrightarrow> oneColumn (set blocks) h')"

lemma dayLaidOut_cong:
  assumes "dayLaidOut blocks h h'" and "\<forall>a\<in>set blocks. h'' a = h' a"
    and "\<forall>a\<in>set blocks. g a = h a"
  shows "dayLaidOut blocks g h''"
proof -
  have 1: "noSharedDepth blocks g h'' = noSharedDepth blocks h h'"
    using assms(2,3) by (simp add: noSharedDepth_def)
  have 2: "oneColumn (set blocks) h'' = oneColumn (set blocks) h'"
    using assms(2) by (simp add: oneColumn_def)
  have 3: "manyColumns (set blocks) h'' = manyColumns (set blocks) h'"
    using assms(2) by (simp add: manyColumns_def)
  have 4: "hasConflict blocks g = hasConflict blocks h"
    using assms(3) by (simp add: hasConflict_def)
  have 5: "wellFormed blocks g = wellFormed blocks h"
    using assms(3) by (simp add: wellFormed_def)
  have 6: "(\<forall>a\<in>set blocks. \<forall>b\<in>set blocks. conflict (h'' a) (h'' b) = conflict (g a) (g b))
      = (\<forall>a\<in>set blocks. \<forall>b\<in>set blocks. conflict (h' a) (h' b) = conflict (h a) (h b))"
    using assms(2,3) by (auto simp: conflict_def)
  show ?thesis using assms(1) unfolding dayLaidOut_def 1 2 3 4 5 6 .
qed

text \<open>Without a conflict on well-formed blocks the scheduler needs one room.\<close>

lemma scheduled_one_room:
  assumes sc: "scheduled blocks h (n, blocks', h')" and wf: "wellFormed blocks h"
    and nc: "\<not> hasConflict blocks h"
  shows "n \<le> 1"
proof -
  from wf have wf': "\<forall>a\<in>set blocks. startMin (h a) < endMin (h a)" by (simp add: wellFormed_def)
  from scheduled_active_ex[OF sc wf'] obtain t
    where t: "int (card (activeAt h (set blocks) t)) = n" ..
  let ?A = "activeAt h (set blocks) t"
  have "a = b" if "a \<in> ?A" "b \<in> ?A" for a b
  proof (rule ccontr)
    assume "a \<noteq> b"
    moreover have "conflict (h a) (h b)" using that by (auto simp: activeAt_def conflict_def)
    moreover have "a \<in> set blocks" "b \<in> set blocks" using that by (auto simp: activeAt_def)
    ultimately show False using nc by (auto simp: hasConflict_def)
  qed
  moreover have "finite ?A" by (simp add: activeAt_def)
  ultimately have "card ?A \<le> Suc 0" by (simp add: card_le_Suc0_iff_eq)
  with t show ?thesis by simp
qed


lemma layoutWeekday_laidOut:
  assumes dist: "distinct blocks" and fr: "\<forall>a\<in>set blocks. fresh (h a)"
    and fuel: "length blocks < fuel"
  shows "\<exists>bs' h' ps'. layoutWeekday fuel blocks (h, ps) = Some (bs', h', ps') \<and>
           set bs' = set blocks \<and> timesKept h h' \<and>
           (\<forall>a. a \<notin> set blocks \<longrightarrow> h' a = h a) \<and> dayLaidOut blocks h h'"
proof -
  define h1 where "h1 = constructAdjList blocks (setIdx blocks h)"
  define c where "c = fst (intervalScheduling2 blocks h1)"
  note g = graph_built[OF dist fr, folded h1_def]
  from layoutWeekday_fresh[OF dist fr fuel, of ps, folded h1_def, folded c_def]
  obtain bs' h' ps' where res: "layoutWeekday fuel blocks (h, ps) = Some (bs', h', ps')"
    and set': "set bs' = set blocks" and tk: "timesKept h h'"
    and out: "\<forall>a. a \<notin> set blocks \<longrightarrow> h' a = h a" and nsd: "noSharedDepth blocks h h'"
    and oc: "if c \<le> 1 then oneColumn (set blocks) h' \<and> ps' = ps else manyColumns (set blocks) h'"
    by blast
  have p2: "\<forall>a\<in>set blocks. \<forall>b\<in>set blocks. conflict (h' a) (h' b) = conflict (h a) (h b)"
    by (simp add: timesKept_conflict[OF tk])
  have p3: "oneColumn (set blocks) h' \<or> manyColumns (set blocks) h'"
    using oc by (cases "c \<le> 1") simp_all
  have p4: "manyColumns (set blocks) h'" if hc: "hasConflict blocks h"
  proof (cases "c \<le> 1")
    case True
    with oc have one: "oneColumn (set blocks) h'" by simp
    from hc obtain a b where ab: "a \<in> set blocks" "b \<in> set blocks" "a \<noteq> b" "conflict (h a) (h b)"
      unfolding hasConflict_def by blast
    with nsd have "depth (h' a) \<noteq> depth (h' b)" unfolding noSharedDepth_def by blast
    moreover have "depth (h' a) = 0" "depth (h' b) = 0" using one ab by (simp_all add: oneColumn_def)
    ultimately show ?thesis by simp
  next
    case False
    with oc show ?thesis by simp
  qed
  have p5: "oneColumn (set blocks) h'" if wf: "wellFormed blocks h" and nc: "\<not> hasConflict blocks h"
  proof -
    have "c \<le> 1"
    proof (cases "blocks = []")
      case True
      then show ?thesis by (simp add: c_def intervalScheduling2_def)
    next
      case False
      have "hd (sort_cmp (cmpStart h1) blocks) \<in> set blocks"
        using False by (metis hd_in_set set_sort_cmp sort_cmp_Nil_iff)
      then have d0: "depth (h1 (hd (sort_cmp (cmpStart h1) blocks))) = 0" using g(2) by blast
      obtain n bs1 h2 where r: "intervalScheduling2 blocks h1 = (n, bs1, h2)"
        by (cases "intervalScheduling2 blocks h1")
      have sc: "scheduled blocks h1 (n, bs1, h2)"
        using intervalScheduling2_scheduled[of blocks h1, OF dist False d0] r by simp
      have wf1: "wellFormed blocks h1"
        using wf g(1) by (simp add: wellFormed_def timesKept_def)
      have nc1: "\<not> hasConflict blocks h1"
        using nc by (simp add: hasConflict_def timesKept_conflict[OF g(1)])
      from scheduled_one_room[OF sc wf1 nc1] r show ?thesis by (simp add: c_def)
    qed
    with oc show ?thesis by simp
  qed
  have "dayLaidOut blocks h h'"
    unfolding dayLaidOut_def using nsd p2 p3 p4 p5 by blast
  with res set' tk out show ?thesis by blast
qed

text \<open>The loop over the days, for days that share no block.\<close>

definition dayStep :: "nat \<Rightarrow> nat list \<Rightarrow> nat list list \<times> heap \<times> nat list list
    \<Rightarrow> (nat list list \<times> heap \<times> nat list list) option" where
  "dayStep fuel blocks st =
     (case st of (days', h', promises) \<Rightarrow>
        (case layoutWeekday fuel blocks (h', promises) of
           None \<Rightarrow> None
         | Some (blocks', h'', promises') \<Rightarrow> Some (days' @ [blocks'], h'', promises')))"

lemma computeBlockPositions_alt:
  "computeBlockPositions fuel days h = foldo (dayStep fuel) days ([], h, [])"
proof -
  have "(\<lambda>blocks (days', h', promises).
              (case layoutWeekday fuel blocks (h', promises) of
                 None \<Rightarrow> None
               | Some (blocks', h'', promises') \<Rightarrow> Some (days' @ [blocks'], h'', promises')))
        = dayStep fuel"
    by (intro ext) (simp add: dayStep_def split: prod.splits)
  then show ?thesis by (simp add: computeBlockPositions_def)
qed

lemma timesKept_trans: "timesKept h h1 \<Longrightarrow> timesKept h1 h2 \<Longrightarrow> timesKept h h2"
  by (simp add: timesKept_def)

lemma days_loop:
  assumes fuel: "\<forall>bs\<in>set days. length bs < fuel"
  shows "\<lbrakk>distinct (concat days); timesKept h hk; \<forall>a\<in>set (concat days). hk a = h a;
          \<forall>a\<in>set (concat days). fresh (h a)\<rbrakk>
    \<Longrightarrow> \<exists>days' h' ps'. foldo (dayStep fuel) days (acc, hk, ps) = Some (days', h', ps') \<and>
          timesKept h h' \<and> (\<forall>a. a \<notin> set (concat days) \<longrightarrow> h' a = hk a) \<and>
          (\<forall>bs\<in>set days. dayLaidOut bs h h')"
  using fuel
proof (induction days arbitrary: acc hk ps)
  case Nil
  then show ?case by simp
next
  case (Cons bs days)
  have dbs: "distinct bs" and ddays: "distinct (concat days)"
    and disj: "set bs \<inter> set (concat days) = {}"
    using Cons.prems(1) by simp_all
  have frk: "\<forall>a\<in>set bs. fresh (hk a)" using Cons.prems(3,4) by simp
  have fl: "length bs < fuel" using Cons.prems(5) by simp
  from layoutWeekday_laidOut[OF dbs frk fl, of ps]
  obtain bs' h1 ps1 where res: "layoutWeekday fuel bs (hk, ps) = Some (bs', h1, ps1)"
    and tk1: "timesKept hk h1" and out1: "\<forall>a. a \<notin> set bs \<longrightarrow> h1 a = hk a"
    and lo: "dayLaidOut bs hk h1" by blast
  have step: "dayStep fuel bs (acc, hk, ps) = Some (acc @ [bs'], h1, ps1)"
    by (simp add: dayStep_def res)
  have tk: "timesKept h h1" by (rule timesKept_trans[OF Cons.prems(2) tk1])
  have same1: "\<forall>a\<in>set (concat days). h1 a = h a"
  proof
    fix a assume a: "a \<in> set (concat days)"
    with disj have "a \<notin> set bs" by blast
    with out1 have "h1 a = hk a" by blast
    moreover have "a \<in> set (concat (bs # days))" using a by simp
    ultimately show "h1 a = h a" using Cons.prems(3) by simp
  qed
  have fr': "\<forall>a\<in>set (concat days). fresh (h a)" using Cons.prems(4) by simp
  have fuel': "\<forall>bs\<in>set days. length bs < fuel" using Cons.prems(5) by simp
  from Cons.IH[OF ddays tk same1 fr' fuel', of "acc @ [bs']" ps1]
  obtain days' h' ps' where
    l: "foldo (dayStep fuel) days (acc @ [bs'], h1, ps1) = Some (days', h', ps')"
    and tk': "timesKept h h'" and out': "\<forall>a. a \<notin> set (concat days) \<longrightarrow> h' a = h1 a"
    and los: "\<forall>bs\<in>set days. dayLaidOut bs h h'" by blast
  have keep: "\<forall>a\<in>set bs. h' a = h1 a"
  proof
    fix a assume "a \<in> set bs"
    with disj have "a \<notin> set (concat days)" by blast
    with out' show "h' a = h1 a" by blast
  qed
  have "dayLaidOut bs h h'"
    by (rule dayLaidOut_cong[OF lo keep]) (use Cons.prems(3) in simp)
  moreover have "foldo (dayStep fuel) (bs # days) (acc, hk, ps) = Some (days', h', ps')"
    using step l by simp
  moreover have "\<forall>a. a \<notin> set (concat (bs # days)) \<longrightarrow> h' a = hk a"
  proof (intro allI impI)
    fix a assume "a \<notin> set (concat (bs # days))"
    then have "a \<notin> set bs" "a \<notin> set (concat days)" by simp_all
    with out' out1 show "h' a = hk a" by simp
  qed
  ultimately show ?case using tk' los by auto
qed

text \<open>The days as \<^verbatim>\<open>computeBlockPositions\<close> expects them.\<close>

definition freshDays :: "nat list list \<Rightarrow> heap \<Rightarrow> bool" where
  "freshDays days h \<longleftrightarrow> distinct (concat days) \<and> (\<forall>a\<in>set (concat days). fresh (h a))"

lemma computeBlockPositions_laidOut:
  assumes "freshDays days h" and "\<forall>bs\<in>set days. length bs < fuel"
  shows "\<exists>days' h' ps'. computeBlockPositions fuel days h = Some (days', h', ps') \<and>
          timesKept h h' \<and> (\<forall>bs\<in>set days. dayLaidOut bs h h')"
proof -
  have "\<exists>days' h' ps'. foldo (dayStep fuel) days ([], h, []) = Some (days', h', ps') \<and>
          timesKept h h' \<and> (\<forall>a. a \<notin> set (concat days) \<longrightarrow> h' a = h a) \<and>
          (\<forall>bs\<in>set days. dayLaidOut bs h h')"
    using assms by (intro days_loop) (simp_all add: freshDays_def timesKept_def)
  then show ?thesis unfolding computeBlockPositions_alt by blast
qed

section \<open>No overlap between conflicting blocks\<close>

text \<open>
  The horizontal ranges \<open>[left, left + width)\<close> of two blocks are disjoint.  A range whose
  bounds are not finite numbers is disjoint from nothing.
\<close>

definition disjointRanges :: "block \<Rightarrow> block \<Rightarrow> bool" where
  "disjointRanges a b \<longleftrightarrow>
     (case left a of
        NotFinite \<Rightarrow> False
      | Fin la \<Rightarrow>
          (case width a of
             NotFinite \<Rightarrow> False
           | Fin wa \<Rightarrow>
               (case left b of
                  NotFinite \<Rightarrow> False
                | Fin lb \<Rightarrow>
                    (case width b of
                       NotFinite \<Rightarrow> False
                     | Fin wb \<Rightarrow> la + wa \<le> lb \<or> lb + wb \<le> la))))"

lemma column_order:
  fixes da db pa pb :: int
  assumes "0 \<le> da" "da < db" "db + 1 \<le> pb" "pb \<le> pa"
  shows "(of_int da / of_int pa + 1 / of_int pa :: rat) \<le> of_int db / of_int pb"
proof -
  have pa: "(0::rat) < of_int pa" and pb: "(0::rat) < of_int pb" using assms by simp_all
  have "(of_int da / of_int pa + 1 / of_int pa :: rat) = of_int (da + 1) / of_int pa"
    by (simp add: add_divide_distrib)
  also have "\<dots> \<le> of_int db / of_int pa"
    using assms pa by (intro divide_right_mono) simp_all
  also have "\<dots> \<le> of_int db / of_int pb"
    using assms pa pb by (intro divide_left_mono) simp_all
  finally show ?thesis .
qed

lemma manyColumns_disjoint:
  assumes m: "manyColumns U h'" and a: "a \<in> U" and b: "b \<in> U"
    and c: "conflict (h' a) (h' b)" and d: "depth (h' a) < depth (h' b)"
  shows "disjointRanges (h' a) (h' b) \<and> disjointRanges (h' b) (h' a)"
proof -
  let ?da = "depth (h' a)" and ?db = "depth (h' b)"
  let ?pa = "pathDepth (h' a)" and ?pb = "pathDepth (h' b)"
  from m a have fa: "0 \<le> ?da" "?da + 1 \<le> ?pa" "left (h' a) = js_div ?da ?pa"
    "width (h' a) = js_div 1 ?pa" by (simp_all add: manyColumns_def)
  from m b have fb: "0 \<le> ?db" "?db + 1 \<le> ?pb" "left (h' b) = js_div ?db ?pb"
    "width (h' b) = js_div 1 ?pb" by (simp_all add: manyColumns_def)
  from m a b c d have le: "?pb \<le> ?pa" unfolding manyColumns_def by blast
  have nz: "?pa \<noteq> 0" "?pb \<noteq> 0" using fa fb by auto
  have "(of_int ?da / of_int ?pa + 1 / of_int ?pa :: rat) \<le> of_int ?db / of_int ?pb"
    by (rule column_order[OF fa(1) d fb(2) le])
  then show ?thesis
    unfolding disjointRanges_def fa(3,4) fb(3,4) js_div_def using nz by simp
qed

lemma dayLaidOut_disjoint:
  assumes lo: "dayLaidOut blocks h h'" and a: "a \<in> set blocks" and b: "b \<in> set blocks"
    and ne: "a \<noteq> b" and c: "conflict (h a) (h b)"
  shows "disjointRanges (h' a) (h' b)"
proof -
  have hc: "hasConflict blocks h" unfolding hasConflict_def using a b ne c by blast
  with lo have m: "manyColumns (set blocks) h'" by (simp add: dayLaidOut_def)
  from lo a b c have c': "conflict (h' a) (h' b)" by (simp add: dayLaidOut_def)
  then have c'': "conflict (h' b) (h' a)" by (rule conflict_sym)
  from lo a b ne c have "depth (h' a) \<noteq> depth (h' b)"
    unfolding dayLaidOut_def noSharedDepth_def by blast
  then consider "depth (h' a) < depth (h' b)" | "depth (h' b) < depth (h' a)" by linarith
  then show ?thesis
  proof cases
    case 1
    from manyColumns_disjoint[OF m a b c' 1] show ?thesis by simp
  next
    case 2
    from manyColumns_disjoint[OF m b a c'' 2] show ?thesis by simp
  qed
qed

text \<open>
  The part of claim C1 that can be stated on this model: the layout that
  \<^verbatim>\<open>computeBlockPositions\<close> itself writes (\<open>left = depth / pathDepth\<close>, \<open>width = 1 / pathDepth\<close>, or
  the full width), with the quotients taken exactly.  For days that share no block and whose
  blocks enter fresh, the function returns, and in every weekday any two different blocks whose
  intervals overlap have disjoint ranges \<open>[left, left + width)\<close>.  Fuel above the length of the
  longest day is enough.  This says nothing about the doubles that the code stores, whose sum
  \<open>left + width\<close> is rounded once more (in doubles \<open>2 / 5 + 1 / 5\<close> exceeds \<open>3 / 5\<close>), nor about
  the values that the optimizer writes later.
\<close>

lemma conflicting_blocks_get_disjoint_ranges:
  assumes "freshDays days h" and "\<forall>bs\<in>set days. length bs < fuel"
  shows "\<exists>days' h' ps. computeBlockPositions fuel days h = Some (days', h', ps) \<and>
           (\<forall>blocks\<in>set days. \<forall>a\<in>set blocks. \<forall>b\<in>set blocks.
              a \<noteq> b \<and> conflict (h a) (h b) \<longrightarrow> disjointRanges (h' a) (h' b))"
proof -
  from computeBlockPositions_laidOut[OF assms]
  obtain days' h' ps' where res: "computeBlockPositions fuel days h = Some (days', h', ps')"
    and lo: "\<forall>bs\<in>set days. dayLaidOut bs h h'" by blast
  have "\<forall>blocks\<in>set days. \<forall>a\<in>set blocks. \<forall>b\<in>set blocks.
              a \<noteq> b \<and> conflict (h a) (h b) \<longrightarrow> disjointRanges (h' a) (h' b)"
    using lo dayLaidOut_disjoint by blast
  with res show ?thesis by blast
qed

definition twoOverlapping :: heap where
  "twoOverlapping = (\<lambda>a. mkBlock 0 1)(0 := mkBlock 540 600, 1 := mkBlock 570 630)"

lemma freshDays_twoOverlapping: "freshDays [[0, 1]] twoOverlapping"
  by (simp add: freshDays_def twoOverlapping_def fresh_def mkBlock_def)

lemma conflicting_blocks_get_disjoint_ranges_instance:
  "freshDays [[0, 1]] twoOverlapping \<and> conflict (twoOverlapping 0) (twoOverlapping 1) \<and>
   (\<exists>days' h' ps. computeBlockPositions 3 [[0, 1]] twoOverlapping = Some (days', h', ps) \<and>
      disjointRanges (h' 0) (h' 1))"
proof -
  have c: "conflict (twoOverlapping 0) (twoOverlapping 1)"
    by (simp add: conflict_def twoOverlapping_def mkBlock_def)
  have f: "\<forall>bs\<in>set [[0, 1::nat]]. length bs < 3" by simp
  from conflicting_blocks_get_disjoint_ranges[OF freshDays_twoOverlapping f]
  obtain days' h' ps where r: "computeBlockPositions 3 [[0, 1]] twoOverlapping = Some (days', h', ps)"
    and d: "\<forall>blocks\<in>set [[0, 1::nat]]. \<forall>a\<in>set blocks. \<forall>b\<in>set blocks.
              a \<noteq> b \<and> conflict (twoOverlapping a) (twoOverlapping b) \<longrightarrow>
              disjointRanges (h' a) (h' b)" by blast
  from d c have "disjointRanges (h' 0) (h' 1)" by simp
  with r c freshDays_twoOverlapping show ?thesis by blast
qed

section \<open>The empty weekday\<close>

lemma layoutWeekday_empty: "layoutWeekday fuel [] (h, ps) = Some ([], h, ps)"
  by (simp add: layoutWeekday_eq intervalScheduling2_def fullWidth_def setIdx_def)

section \<open>Runs on concrete stores\<close>

text \<open>
  A store given by the list of its blocks: address \<open>a\<close> holds the \<open>a\<close>-th block of the list, and
  every other address holds a fresh block that no array refers to.
\<close>

definition heapOf :: "block list \<Rightarrow> heap" where
  "heapOf bs = (\<lambda>a. if a < length bs then bs ! a else mkBlock 0 1)"

lemma heapOf_apply: "a < length bs \<Longrightarrow> heapOf bs a = bs ! a"
  by (simp add: heapOf_def)

lemma heapOf_upd: "a < length bs \<Longrightarrow> (heapOf bs)(a := v) = heapOf (bs[a := v])"
  by (rule ext) (auto simp: heapOf_def)

text \<open>The equations that evaluate one stage of the layout on such a store.\<close>

lemmas runDefs =
  setIdx_def constructAdjList.simps addEdge_def conflict_def
  intervalScheduling2_def sort_cmp_def cmpStart_def duration_def schedStep2_def cmpEnd_def
  pathBody_def fixTop_def seed_def clearVisited_def
  depthFirstSearchRec_Suc markVisited_def DFSFindFixed_Suc fixBody_def sameP_def visit_def
  setFixed_def pathWidth_def fullWidth_def js_div_def dispatch_def BFS_def bfsVisit_def
  heapOf_apply heapOf_upd Let_def

subsection \<open>Eight blocks on one weekday\<close>
















section \<open>Which blocks the detection pass marks as fixed\<close>







section \<open>A second layout pass over the same blocks\<close>

subsection \<open>Four blocks, laid out twice\<close>


























section \<open>What a layout pass does to the conflict graph it finds\<close>




subsection \<open>Two blocks with the same interval, laid out twice\<close>





























section \<open>Laying out the same blocks a second time\<close>


subsection \<open>The sorted order when no two blocks have the same interval\<close>



lemma cmpStart_timesKept: "timesKept h g \<Longrightarrow> cmpStart g = cmpStart h"
  by (intro ext) (simp add: cmpStart_def duration_def timesKept_def)


subsection \<open>The scheduler reads no depth but the one of the first block\<close>










subsection \<open>Where a path depth comes from\<close>















subsection \<open>The stages of a pass over blocks that are not fresh\<close>

lemma graph_stage:
  fixes h :: heap
  assumes dist: "distinct blocks"
  defines "g \<equiv> constructAdjList blocks (setIdx blocks h)"
  shows "timesKept h g"
    and "depth (g a) = depth (h a)" and "visited (g a) = visited (h a)"
    and "a \<in> set blocks \<Longrightarrow>
           set (neighbors (g a)) =
             set (neighbors (h a)) \<union> {b \<in> set blocks. b \<noteq> a \<and> conflict (h a) (h b)}"
    and "a \<notin> set blocks \<Longrightarrow> g a = h a"
    and "closedIn (set blocks) h \<Longrightarrow> closedIn (set blocks) g"
proof -
  have cf: "conflict (setIdx blocks h a) (setIdx blocks h b) = conflict (h a) (h b)" for a b
    by (simp add: conflict_def setIdx_fields)
  have g: "g a = pushNeighbors (setIdx blocks h a)
       (if a \<in> set blocks then filter (\<lambda>b. b \<noteq> a \<and> conflict (h a) (h b)) blocks else [])" for a
    unfolding g_def using constructAdjList_apply[OF dist, of "setIdx blocks h" a] by (simp add: cf)
  show "timesKept h g" by (simp add: timesKept_def g pushNeighbors_def setIdx_fields)
  show "depth (g a) = depth (h a)" by (simp add: g pushNeighbors_def setIdx_fields)
  show "visited (g a) = visited (h a)" by (simp add: g pushNeighbors_def setIdx_fields)
  show nb: "set (neighbors (g a)) =
             set (neighbors (h a)) \<union> {b \<in> set blocks. b \<noteq> a \<and> conflict (h a) (h b)}"
    if "a \<in> set blocks" for a
    using that by (auto simp: g pushNeighbors_def setIdx_fields)
  show "g a = h a" if "a \<notin> set blocks"
    using that by (simp add: g pushNeighbors_def setIdx_outside)
  show "closedIn (set blocks) g" if "closedIn (set blocks) h"
    using that nb unfolding closedIn_def by auto
qed


lemma computeBlockPositions_single:
  "computeBlockPositions fuel [blocks] h =
     (case layoutWeekday fuel blocks (h, []) of
        None \<Rightarrow> None
      | Some (bs', h', ps') \<Rightarrow> Some ([bs'], h', ps'))"
  by (simp add: computeBlockPositions_alt dayStep_def split: option.splits)





section \<open>The quadratic scheduler, block by block\<close>

lemma nth_not_in_drop:
  assumes "distinct xs" "i < length xs"
  shows "xs ! i \<notin> set (drop (Suc i) xs)"
proof -
  have "xs = take i xs @ xs ! i # drop (Suc i) xs" using assms(2) by (rule id_take_nth_drop)
  then have "distinct (take i xs @ xs ! i # drop (Suc i) xs)" using assms(1) by simp
  then show ?thesis by simp
qed

lemma fold_take_Suc:
  "i < length xs \<Longrightarrow> fold f (take (Suc i) xs) s = f (xs ! i) (fold f (take i xs) s)"
  by (simp add: take_Suc_conv_app_nth)

text \<open>The depth that a block is given in its iteration is the depth it has in the end.\<close>

lemma schedStep_depth_final:
  assumes dist: "distinct rest" and i: "i < length rest"
  shows "fst (fold schedStep rest s0) (rest ! i) = fst (fold schedStep (take (Suc i) rest) s0) (rest ! i)"
proof -
  let ?s1 = "fold schedStep (take (Suc i) rest) s0"
  have "fold schedStep rest s0 = fold schedStep (take (Suc i) rest @ drop (Suc i) rest) s0"
    by simp
  also have "\<dots> = fold schedStep (drop (Suc i) rest) ?s1" by (simp only: fold_append comp_apply)
  finally have e: "fold schedStep rest s0 = fold schedStep (drop (Suc i) rest) ?s1" .
  have "depthOnly ({} \<union> set (drop (Suc i) rest)) (fst ?s1)
          (fst (fold schedStep (drop (Suc i) rest) ?s1))"
    by (rule fold_depthOnly[OF schedStep_heap]) (simp add: depthOnly_refl)
  then have "depthOnly (set (drop (Suc i) rest)) (fst ?s1) (fst (fold schedStep rest s0))"
    by (simp add: e)
  from depthOnly_same[OF this nth_not_in_drop[OF dist i]] show ?thesis .
qed

text \<open>
  Claim C7.  \<^verbatim>\<open>intervalScheduling\<close> sorts the blocks, starts with the first sorted block as the
  only occupied room, and takes the other blocks in sorted order.  When the block at position
  \<open>i\<close> of the remaining blocks is taken, \<open>hi\<close>, \<open>occupied\<close> and \<open>numRooms\<close> being the state that the
  earlier iterations have built: if some occupied room is free for the block (its last block
  ends at or before the start of the block), the block takes the place, in \<^verbatim>\<open>occupied\<close>, of a
  free room whose depth is lowest among all free rooms and gets that depth, and the room count
  stays; a new room with the next depth is opened exactly when no occupied room is free.  In
  both cases the depth given in this iteration is the depth of the block in the result.
\<close>

theorem greedy_takes_lowest_free_room:
  assumes "distinct blocks" and "sort_cmp (cmpStart h) blocks = b0 # rest"
    and "i < length rest"
    and "fold schedStep (take i rest) (h, [b0], 0) = (hi, occupied, numRooms)"
  shows "\<exists>total h'. intervalScheduling blocks h = (total, b0 # rest, h') \<and>
           (if \<exists>k<length occupied. roomFree hi (rest ! i) (occupied ! k)
            then \<exists>j. lowestFree hi (rest ! i) occupied j \<and>
                   fold schedStep (take (Suc i) rest) (h, [b0], 0) =
                     (hi(rest ! i := (hi (rest ! i))\<lparr>depth := depth (hi (occupied ! j))\<rparr>),
                      occupied[j := rest ! i], numRooms) \<and>
                   depth (h' (rest ! i)) = depth (hi (occupied ! j))
            else fold schedStep (take (Suc i) rest) (h, [b0], 0) =
                   (hi(rest ! i := (hi (rest ! i))\<lparr>depth := numRooms + 1\<rparr>),
                    occupied @ [rest ! i], numRooms + 1) \<and>
                 depth (h' (rest ! i)) = numRooms + 1)"
proof -
  let ?x = "rest ! i" and ?s0 = "(h, [b0], 0::int)"
  obtain h' occ' n' where f: "fold schedStep rest ?s0 = (h', occ', n')"
    by (cases "fold schedStep rest ?s0")
  have res: "intervalScheduling blocks h = (n' + 1, b0 # rest, h')"
    by (simp add: intervalScheduling_def assms(2) f)
  have "distinct (b0 # rest)" using assms(1,2) by (metis distinct_sort_cmp)
  then have dr: "distinct rest" by simp
  have step: "fold schedStep (take (Suc i) rest) ?s0 = schedStep ?x (hi, occupied, numRooms)"
    by (simp only: fold_take_Suc[OF assms(3)] assms(4))
  have fin: "depth (h' ?x) = depth (fst (schedStep ?x (hi, occupied, numRooms)) ?x)"
    using schedStep_depth_final[OF dr assms(3), of ?s0] by (simp add: f step)
  from schedStep_cases[of hi ?x occupied numRooms]
  show ?thesis
  proof (elim disjE exE conjE)
    fix j assume l: "lowestFree hi ?x occupied j"
      and s: "schedStep ?x (hi, occupied, numRooms) =
          (hi(?x := (hi ?x)\<lparr>depth := depth (hi (occupied ! j))\<rparr>), occupied[j := ?x], numRooms)"
    from l have "\<exists>k<length occupied. roomFree hi ?x (occupied ! k)"
      by (auto simp: lowestFree_def)
    moreover have "depth (h' ?x) = depth (hi (occupied ! j))" unfolding fin s by simp
    ultimately show ?thesis using res l s step by auto
  next
    assume n: "\<forall>k<length occupied. \<not> roomFree hi ?x (occupied ! k)"
      and s: "schedStep ?x (hi, occupied, numRooms) =
          (hi(?x := (hi ?x)\<lparr>depth := numRooms + 1\<rparr>), occupied @ [?x], numRooms + 1)"
    have "depth (h' ?x) = numRooms + 1" unfolding fin s by simp
    then show ?thesis using res n s step by auto
  qed
qed

text \<open>
  An instance.  Block \<open>0\<close> sorts first and carries depth \<open>2\<close> from an earlier pass, block \<open>1\<close>
  overlaps it and opens room \<open>1\<close>.  When block \<open>2\<close> is taken both rooms are free; it gets depth
  \<open>1\<close>, the lowest, which is the second entry of \<^verbatim>\<open>occupied\<close>, not the first.
\<close>

definition greedyExample :: heap where
  "greedyExample = (\<lambda>a. mkBlock 0 1)
     (0 := (mkBlock 0 10)\<lparr>depth := 2\<rparr>, 1 := mkBlock 1 11, 2 := mkBlock 20 30)"

definition greedyExampleMid :: heap where
  "greedyExampleMid = (\<lambda>a. mkBlock 0 1)
     (0 := (mkBlock 0 10)\<lparr>depth := 2\<rparr>, 1 := (mkBlock 1 11)\<lparr>depth := 1\<rparr>, 2 := mkBlock 20 30)"

theorem greedy_takes_lowest_free_room_witness:
  "distinct [0, 1, 2::nat] \<and> sort_cmp (cmpStart greedyExample) [0, 1, 2] = [0, 1, 2] \<and>
   fold schedStep (take 1 [1, 2]) (greedyExample, [0], 0) = (greedyExampleMid, [0, 1], 1) \<and>
   roomFree greedyExampleMid 2 0 \<and> roomFree greedyExampleMid 2 1 \<and>
   (\<exists>total h'. intervalScheduling [0, 1, 2] greedyExample = (total, [0, 1, 2], h') \<and>
      fold schedStep (take 2 [1, 2]) (greedyExample, [0], 0) =
        (greedyExampleMid(2 := (greedyExampleMid 2)\<lparr>depth := 1\<rparr>), [0, 2], 1) \<and>
      depth (h' 2) = 1)"
proof -
  have d: "distinct [0, 1, 2::nat]" by simp
  have s: "sort_cmp (cmpStart greedyExample) [0, 1, 2] = [0, 1, 2]"
    by (simp add: sort_cmp_def cmpStart_def duration_def greedyExample_def mkBlock_def)
  have i: "(1::nat) < length [1, 2::nat]" by simp
  have m: "fold schedStep (take 1 [1, 2]) (greedyExample, [0], 0) = (greedyExampleMid, [0, 1], 1)"
    by (simp add: schedStep_def greedyExample_def greedyExampleMid_def mkBlock_def fun_upd_twist)
  have f0: "roomFree greedyExampleMid 2 0" and f1: "roomFree greedyExampleMid 2 1"
    by (simp_all add: roomFree_def greedyExampleMid_def mkBlock_def)
  have free: "\<exists>k<length [0, 1::nat]. roomFree greedyExampleMid ([1, 2] ! 1) ([0, 1] ! k)"
    by (rule exI[of _ 0]) (simp add: f0)
  from greedy_takes_lowest_free_room[OF d s i m] free
  obtain total h' j where r: "intervalScheduling [0, 1, 2] greedyExample = (total, [0, 1, 2], h')"
    and l: "lowestFree greedyExampleMid ([1, 2] ! 1) [0, 1] j"
    and st: "fold schedStep (take (Suc 1) [1, 2]) (greedyExample, [0], 0) =
               (greedyExampleMid([1, 2] ! 1 := (greedyExampleMid ([1, 2] ! 1))
                   \<lparr>depth := depth (greedyExampleMid ([0, 1] ! j))\<rparr>),
                [0, 1][j := [1, 2] ! 1], 1)"
    and dp: "depth (h' ([1, 2] ! 1)) = depth (greedyExampleMid ([0, 1] ! j))"
    by auto
  from l have j: "j = 1"
    by (auto simp: lowestFree_def roomFree_def greedyExampleMid_def mkBlock_def less_Suc_eq)
  have "fold schedStep (take 2 [1, 2]) (greedyExample, [0], 0) =
        (greedyExampleMid(2 := (greedyExampleMid 2)\<lparr>depth := 1\<rparr>), [0, 2], 1)"
    using st unfolding j by (simp add: greedyExampleMid_def mkBlock_def numeral_2_eq_2)
  moreover have "depth (h' 2) = 1"
    using dp unfolding j by (simp add: greedyExampleMid_def mkBlock_def)
  ultimately show ?thesis using d s m f0 f1 r by blast
qed

section \<open>A weekday without a conflict\<close>

text \<open>
  On blocks that pairwise do not overlap the scheduler with the queue never opens a room: every
  block after the first takes the depth of the top of the queue, which is in the end the depth
  that the first sorted block carried on entry.
\<close>

definition oneRoom :: "heap \<Rightarrow> int \<Rightarrow> nat set \<Rightarrow> heap \<times> nat list \<times> int \<Rightarrow> bool" where
  "oneRoom g d P st \<longleftrightarrow>
     (case st of (h', q, n) \<Rightarrow>
        n = 0 \<and> q \<noteq> [] \<and> set q \<subseteq> P \<and> (\<forall>a\<in>P. depth (h' a) = d) \<and> timesKept g h')"

lemma schedStep2_oneRoom:
  assumes inv: "oneRoom g d P st" and ended: "\<forall>p\<in>P. endMin (g p) \<le> startMin (g x)"
  shows "oneRoom g d (insert x P) (schedStep2 x st)"
proof -
  obtain h' q n where st: "st = (h', q, n)" by (cases st)
  from inv have n: "n = 0" and ne: "q \<noteq> []" and sub: "set q \<subseteq> P"
    and dp: "\<forall>a\<in>P. depth (h' a) = d" and tk: "timesKept g h'"
    by (simp_all add: oneRoom_def st)
  from ne obtain p ps where q: "q = p # ps" by (cases q) auto
  have pP: "p \<in> P" using sub q by simp
  have "endMin (h' p) \<le> startMin (h' x)"
    using ended pP tk by (simp add: timesKept_def)
  then have s: "schedStep2 x st =
      (setDepth x (depth (h' p)) h', pq_push (cmpEnd (setDepth x (depth (h' p)) h')) x ps, 0)"
    by (simp add: schedStep2_def st q n setDepth_def Let_def)
  have "depth (h' p) = d" using dp pP by simp
  moreover have "timesKept g (setDepth x d h')"
    using tk by (simp add: timesKept_def setDepth_def)
  moreover have "set ps \<subseteq> P" using sub q by simp
  ultimately show ?thesis
    unfolding s oneRoom_def prod.case using dp by (auto simp: setDepth_def)
qed

lemma fold_schedStep2_oneRoom:
  "\<lbrakk>oneRoom g d (set pre) st;
    sorted_wrt (\<lambda>a b. endMin (g a) \<le> startMin (g b)) (pre @ xs)\<rbrakk>
   \<Longrightarrow> oneRoom g d (set (pre @ xs)) (fold schedStep2 xs st)"
proof (induction xs arbitrary: pre st)
  case Nil
  then show ?case by simp
next
  case (Cons x xs)
  have "\<forall>p\<in>set pre. endMin (g p) \<le> startMin (g x)"
    using Cons.prems(2) by (simp add: sorted_wrt_append)
  from schedStep2_oneRoom[OF Cons.prems(1) this]
  have 1: "oneRoom g d (set (pre @ [x])) (schedStep2 x st)" by simp
  have 2: "sorted_wrt (\<lambda>a b. endMin (g a) \<le> startMin (g b)) ((pre @ [x]) @ xs)"
    using Cons.prems(2) by simp
  from Cons.IH[OF 1 2] show ?case by simp
qed

lemma sorted_wrt_distinct_rel:
  "\<lbrakk>distinct xs; sorted_wrt S xs;
    \<And>a b. a \<in> set xs \<Longrightarrow> b \<in> set xs \<Longrightarrow> a \<noteq> b \<Longrightarrow> S a b \<Longrightarrow> R a b\<rbrakk>
   \<Longrightarrow> sorted_wrt R xs"
  by (induction xs) auto

lemma conflict_free_sorted:
  assumes dist: "distinct blocks" and wf: "wellFormed blocks g" and nc: "\<not> hasConflict blocks g"
  shows "sorted_wrt (\<lambda>a b. endMin (g a) \<le> startMin (g b)) (sort_cmp (cmpStart g) blocks)"
proof (rule sorted_wrt_distinct_rel[where S = "\<lambda>a b. startMin (g a) \<le> startMin (g b)"])
  show "distinct (sort_cmp (cmpStart g) blocks)" using dist by simp
  show "sorted_wrt (\<lambda>a b. startMin (g a) \<le> startMin (g b)) (sort_cmp (cmpStart g) blocks)"
    by (rule sorted_cmpStart)
next
  fix a b
  assume a: "a \<in> set (sort_cmp (cmpStart g) blocks)"
    and b: "b \<in> set (sort_cmp (cmpStart g) blocks)"
    and ne: "a \<noteq> b" and le: "startMin (g a) \<le> startMin (g b)"
  from a b have a': "a \<in> set blocks" and b': "b \<in> set blocks" by simp_all
  from nc a' b' ne have "\<not> conflict (g a) (g b)" unfolding hasConflict_def by blast
  moreover from wf b' have "startMin (g b) < endMin (g b)" by (simp add: wellFormed_def)
  ultimately show "endMin (g a) \<le> startMin (g b)" using le by (auto simp: conflict_def)
qed

lemma intervalScheduling2_conflict_free:
  assumes dist: "distinct blocks" and ne: "blocks \<noteq> []"
    and wf: "wellFormed blocks g" and nc: "\<not> hasConflict blocks g"
    and r: "intervalScheduling2 blocks g = (n, bs, h2)"
  shows "n = 1 \<and> set bs = set blocks \<and> timesKept g h2 \<and>
         (\<forall>a\<in>set blocks. depth (h2 a) = depth (g (hd (sort_cmp (cmpStart g) blocks))))"
proof -
  obtain b0 rest where srt: "sort_cmp (cmpStart g) blocks = b0 # rest"
    using ne by (cases "sort_cmp (cmpStart g) blocks") auto
  obtain h1 q1 n1 where f: "fold schedStep2 rest (g, [b0], 0) = (h1, q1, n1)"
    by (cases "fold schedStep2 rest (g, [b0], 0)")
  have 0: "oneRoom g (depth (g b0)) (set [b0]) (g, [b0], 0)"
    by (simp add: oneRoom_def timesKept_def)
  have s: "sorted_wrt (\<lambda>a b. endMin (g a) \<le> startMin (g b)) ([b0] @ rest)"
    using conflict_free_sorted[OF dist wf nc] by (simp add: srt)
  from fold_schedStep2_oneRoom[OF 0 s]
  have "oneRoom g (depth (g b0)) (set (b0 # rest)) (h1, q1, n1)" by (simp add: f)
  then have n1: "n1 = 0" and dp: "\<forall>a\<in>set (b0 # rest). depth (h1 a) = depth (g b0)"
    and tk: "timesKept g h1"
    by (simp_all add: oneRoom_def)
  have set': "set (b0 # rest) = set blocks" using srt by (metis set_sort_cmp)
  from r have "n = n1 + 1" "bs = b0 # rest" "h2 = h1"
    by (simp_all add: intervalScheduling2_def srt f)
  moreover have "\<forall>a\<in>set blocks. depth (h1 a) = depth (g b0)" using dp unfolding set' .
  ultimately show ?thesis using n1 tk set' by (simp add: srt)
qed

subsection \<open>Two overlapping blocks, then one of them alone\<close>

text \<open>The stores after the stages of one call on the two fresh blocks.\<close>

definition pair :: heap where
  "pair = heapOf
   [mkBlock 540 600,
    mkBlock 570 630]"

definition pairGraph :: heap where
  "pairGraph = heapOf
   [(mkBlock 540 600)\<lparr>neighbors := [1], idx := 0\<rparr>,
    (mkBlock 570 630)\<lparr>neighbors := [0], idx := 1\<rparr>]"

lemma pair_graph:
  "constructAdjList [0, 1] (setIdx [0, 1] pair) =
     pairGraph"
  by (simp add: runDefs pair_def pairGraph_def mkBlock_def numeral_eq_Suc)

definition pairDepths :: heap where
  "pairDepths = heapOf
   [(mkBlock 540 600)\<lparr>neighbors := [1], idx := 0\<rparr>,
    (mkBlock 570 630)\<lparr>depth := 1, neighbors := [0], idx := 1\<rparr>]"

lemma pair_depths:
  "intervalScheduling2 [0, 1] pairGraph =
     (2, [0, 1], pairDepths)"
  by (simp add: runDefs pairGraph_def pairDepths_def mkBlock_def numeral_eq_Suc)

lemma pair_order:
  "sort_cmp (\<lambda>v1 v2. depth (pairDepths v2) - depth (pairDepths v1)) [0, 1] =
     [1, 0]"
  by (simp add: runDefs pairDepths_def mkBlock_def numeral_eq_Suc)

definition pairPaths :: heap where
  "pairPaths = heapOf
   [(mkBlock 540 600)\<lparr>pathDepth := 2, visited := True, neighbors := [1], idx := 0\<rparr>,
    (mkBlock 570 630)\<lparr>depth := 1, pathDepth := 2, visited := True, neighbors := [0], idx := 1\<rparr>]"

lemma pair_paths:
  "foldo (pathBody 3) [1, 0] pairDepths =
     Some pairPaths"
  by (simp add: runDefs pairDepths_def pairPaths_def mkBlock_def numeral_eq_Suc)

definition pairFixed :: heap where
  "pairFixed = heapOf
   [(mkBlock 540 600)\<lparr>pathDepth := 2, isFixed := True, visited := True, neighbors := [1], idx := 0\<rparr>,
    (mkBlock 570 630)\<lparr>depth := 1, pathDepth := 2, isFixed := True, visited := True, neighbors := [0], idx := 1\<rparr>]"

lemma pair_fixed:
  "foldo (fixTop 3) [1, 0] (clearVisited [1, 0] pairPaths) =
     Some pairFixed"
  by (simp add: runDefs pairPaths_def pairFixed_def mkBlock_def numeral_eq_Suc)

lemma pair_calculateMaxDepth:
  "calculateMaxDepth 3 [0, 1] pairDepths =
     Some ([1, 0], pairFixed)"
  by (simp only: calculateMaxDepth_alt Let_def pair_order pair_paths pair_fixed option.case)

definition pairFinal :: heap where
  "pairFinal = heapOf
   [(mkBlock 540 600)\<lparr>pathDepth := 2, left := Fin 0, width := Fin (1 / 2), isFixed := True, neighbors := [1], idx := 0\<rparr>,
    (mkBlock 570 630)\<lparr>depth := 1, pathDepth := 2, left := Fin (1 / 2), width := Fin (1 / 2), isFixed := True, neighbors := [0], idx := 1\<rparr>]"

lemma pair_dispatch:
  "dispatch 3 [1, 0] (clearVisited [1, 0] (pathWidth [1, 0] pairFixed), []) =
     Some (pairFinal, [])"
  by (simp add: runDefs pairFixed_def pairFinal_def mkBlock_def numeral_eq_Suc)

lemma pair_run:
  "computeBlockPositions 3 [[0, 1]] pair =
     Some ([[1, 0]], pairFinal, [])"
  by (simp only: computeBlockPositions_alt foldo.simps dayStep_def layoutWeekday_eq pair_graph
        pair_depths pair_calculateMaxDepth pair_dispatch prod.case option.case append_Nil) simp

text \<open>Block \<open>0\<close> is removed from the weekday, and the weekday is laid out again.\<close>

definition pairAlone :: heap where
  "pairAlone = heapOf
   [(mkBlock 540 600)\<lparr>pathDepth := 2, left := Fin 0, width := Fin (1 / 2), isFixed := True, neighbors := [1], idx := 0\<rparr>,
    (mkBlock 570 630)\<lparr>depth := 1, pathDepth := 2, left := Fin 0, width := Fin 1, isFixed := True, neighbors := [0], idx := 0\<rparr>]"

lemma alone_columns:
  "intervalScheduling2 [1] (constructAdjList [1] (setIdx [1] pairFinal)) =
     (1, [1], heapOf
   [(mkBlock 540 600)\<lparr>pathDepth := 2, left := Fin 0, width := Fin (1 / 2), isFixed := True, neighbors := [1], idx := 0\<rparr>,
    (mkBlock 570 630)\<lparr>depth := 1, pathDepth := 2, left := Fin (1 / 2), width := Fin (1 / 2), isFixed := True, neighbors := [0], idx := 0\<rparr>])"
  by (simp add: runDefs pairFinal_def mkBlock_def numeral_eq_Suc)

lemma alone_run:
  "computeBlockPositions 3 [[1]] pairFinal =
     Some ([[1]], pairAlone, [])"
  by (simp only: computeBlockPositions_alt foldo.simps dayStep_def layoutWeekday_eq alone_columns
        prod.case option.case append_Nil)
     (simp add: runDefs pairAlone_def mkBlock_def numeral_eq_Suc)

section \<open>Empty days and days with one column\<close>

text \<open>
  Claim C8, as stated, fails for the depth.  Two overlapping fresh blocks are laid out, which
  gives block \<open>1\<close> depth \<open>1\<close>; then block \<open>0\<close> is removed and the weekday, now the single block
  \<open>1\<close>, is laid out again.  The weekday needs one column and the block gets \<open>left = 0\<close> and
  \<open>width = 1\<close>, but it keeps depth \<open>1\<close>: neither scheduler writes the depth of the block that
  sorts first.
\<close>

theorem single_block_keeps_stale_depth:
  "computeBlockPositions 3 [[0, 1]] pair = Some ([[1, 0]], pairFinal, []) \<and>
   fst (intervalScheduling2 [1] (constructAdjList [1] (setIdx [1] pairFinal))) = 1 \<and>
   computeBlockPositions 3 [[1]] pairFinal = Some ([[1]], pairAlone, []) \<and>
   left (pairAlone 1) = Fin 0 \<and> width (pairAlone 1) = Fin 1 \<and> depth (pairAlone 1) = 1"
proof -
  have "fst (intervalScheduling2 [1] (constructAdjList [1] (setIdx [1] pairFinal))) = 1"
    by (simp only: alone_columns fst_conv)
  then show ?thesis
    by (intro conjI pair_run alone_run)
       (simp_all add: pairAlone_def heapOf_apply mkBlock_def)
qed

text \<open>
  Claim C8, amended.  On an empty block list both schedulers return \<open>0\<close>, and the layout of no
  day or of an empty day changes nothing.  On a weekday of distinct blocks with
  \<open>startMin < endMin\<close> that pairwise do not overlap (a single block, or several blocks without a
  conflict), whatever the layout fields hold on entry, the scheduler returns one column and every
  block ends with \<open>left = 0\<close>, \<open>width = 1\<close> and the depth that the block sorting first carried on
  entry; that is depth \<open>0\<close> when this block enters with depth \<open>0\<close>.
\<close>

theorem conflict_free_weekday_gets_full_width:
  "fst (intervalScheduling [] h) = 0 \<and> fst (intervalScheduling2 [] h) = 0 \<and>
   computeBlockPositions fuel [] h = Some ([], h, []) \<and>
   computeBlockPositions fuel [[]] h = Some ([[]], h, []) \<and>
   (distinct blocks \<and> blocks \<noteq> [] \<and> wellFormed blocks h \<and> \<not> hasConflict blocks h \<longrightarrow>
      (\<exists>bs' h'. computeBlockPositions fuel [blocks] h = Some ([bs'], h', []) \<and>
         fst (intervalScheduling2 blocks (constructAdjList blocks (setIdx blocks h))) = 1 \<and>
         (\<forall>a\<in>set blocks. left (h' a) = Fin 0 \<and> width (h' a) = Fin 1 \<and>
            depth (h' a) = depth (h (hd (sort_cmp (cmpStart h) blocks))))))"
proof -
  have 1: "fst (intervalScheduling [] h) = 0" by (simp add: intervalScheduling_def)
  have 2: "fst (intervalScheduling2 [] h) = 0" by (simp add: intervalScheduling2_def)
  have 3: "computeBlockPositions fuel [] h = Some ([], h, [])"
    by (simp add: computeBlockPositions_alt)
  have 4: "computeBlockPositions fuel [[]] h = Some ([[]], h, [])"
    by (simp add: computeBlockPositions_alt dayStep_def layoutWeekday_empty)
  have 5: "\<exists>bs' h'. computeBlockPositions fuel [blocks] h = Some ([bs'], h', []) \<and>
         fst (intervalScheduling2 blocks (constructAdjList blocks (setIdx blocks h))) = 1 \<and>
         (\<forall>a\<in>set blocks. left (h' a) = Fin 0 \<and> width (h' a) = Fin 1 \<and>
            depth (h' a) = depth (h (hd (sort_cmp (cmpStart h) blocks))))"
    if dist: "distinct blocks" and ne: "blocks \<noteq> []" and wf: "wellFormed blocks h"
      and nc: "\<not> hasConflict blocks h"
  proof -
    define g where "g = constructAdjList blocks (setIdx blocks h)"
    note gs = graph_stage[where h = h, OF dist, folded g_def]
    have t: "startMin (g a) = startMin (h a) \<and> endMin (g a) = endMin (h a)" for a
      using gs(1) by (simp add: timesKept_def)
    have wfg: "wellFormed blocks g" using wf by (simp add: wellFormed_def t)
    have ncg: "\<not> hasConflict blocks g" using nc by (simp add: hasConflict_def conflict_def t)
    obtain n bs1 h2 where r: "intervalScheduling2 blocks g = (n, bs1, h2)"
      by (cases "intervalScheduling2 blocks g")
    from intervalScheduling2_conflict_free[OF dist ne wfg ncg r]
    have n: "n = 1" and set1: "set bs1 = set blocks"
      and dp: "\<forall>a\<in>set blocks. depth (h2 a) = depth (g (hd (sort_cmp (cmpStart g) blocks)))"
      by simp_all
    have c: "cmpStart g = cmpStart h" by (rule cmpStart_timesKept[OF gs(1)])
    have res: "layoutWeekday fuel blocks (h, []) = Some (bs1, fullWidth bs1 h2, [])"
      unfolding layoutWeekday_eq g_def[symmetric] r using n by simp
    have "computeBlockPositions fuel [blocks] h = Some ([bs1], fullWidth bs1 h2, [])"
      by (simp add: computeBlockPositions_single res)
    moreover have "fst (intervalScheduling2 blocks g) = 1" using r n by simp
    moreover have "\<forall>a\<in>set blocks. left (fullWidth bs1 h2 a) = Fin 0 \<and>
        width (fullWidth bs1 h2 a) = Fin 1 \<and>
        depth (fullWidth bs1 h2 a) = depth (h (hd (sort_cmp (cmpStart h) blocks)))"
      using dp by (simp add: fullWidth_apply set1 c gs(2))
    ultimately show ?thesis unfolding g_def by blast
  qed
  from 1 2 3 4 5 show ?thesis by blast
qed

text \<open>
  An instance: two blocks that do not overlap, the second with depth \<open>3\<close> from an earlier pass.
  Both end with depth \<open>0\<close>, the depth of the first.
\<close>

definition apartStale :: heap where
  "apartStale = (\<lambda>a. mkBlock 0 1)
     (0 := mkBlock 540 600, 1 := (mkBlock 600 660)\<lparr>depth := 3\<rparr>)"

theorem conflict_free_weekday_gets_full_width_witness:
  "distinct [0, 1::nat] \<and> wellFormed [0, 1] apartStale \<and> \<not> hasConflict [0, 1] apartStale \<and>
   (\<exists>bs' h'. computeBlockPositions 3 [[0, 1]] apartStale = Some ([bs'], h', []) \<and>
      left (h' 0) = Fin 0 \<and> width (h' 0) = Fin 1 \<and> depth (h' 0) = 0 \<and>
      left (h' 1) = Fin 0 \<and> width (h' 1) = Fin 1 \<and> depth (h' 1) = 0)"
proof -
  have d: "distinct [0, 1::nat]" and e: "[0, 1::nat] \<noteq> []" by simp_all
  have w: "wellFormed [0, 1] apartStale"
    by (simp add: wellFormed_def apartStale_def mkBlock_def)
  have n: "\<not> hasConflict [0, 1] apartStale"
    by (simp add: hasConflict_def conflict_def apartStale_def mkBlock_def)
  have s: "hd (sort_cmp (cmpStart apartStale) [0, 1]) = 0"
    by (simp add: sort_cmp_def cmpStart_def duration_def apartStale_def mkBlock_def)
  from conflict_free_weekday_gets_full_width[of apartStale 3 "[0, 1]"] d e w n
  obtain bs' h' where r: "computeBlockPositions 3 [[0, 1]] apartStale = Some ([bs'], h', [])"
    and a: "\<forall>a\<in>set [0, 1::nat]. left (h' a) = Fin 0 \<and> width (h' a) = Fin 1 \<and>
            depth (h' a) = depth (apartStale (hd (sort_cmp (cmpStart apartStale) [0, 1])))"
    by blast
  have "depth (apartStale 0) = 0" by (simp add: apartStale_def mkBlock_def)
  with a have "left (h' 0) = Fin 0 \<and> width (h' 0) = Fin 1 \<and> depth (h' 0) = 0 \<and>
      left (h' 1) = Fin 0 \<and> width (h' 1) = Fin 1 \<and> depth (h' 1) = 0"
    unfolding s by simp
  with r d w n show ?thesis by blast
qed

subsection \<open>A block that is laid out again with other blocks\<close>




























section \<open>Path depth against depth\<close>












end
